theory Spec2Isabelle
  imports Main
begin

section \<open>Data model of \<open>src/main.ts\<close>\<close>

text \<open>
  Class \<open>N\<close> (lines 14 to 80) holds a bigint \<open>value\<close> and a list \<open>deferred\<close> of
  operations; the subclasses of \<open>OP\<close> are \<open>INC\<close>, \<open>DEC\<close> and the four binary operations
  (lines 85 to 195), each of which captures its operand \<open>b\<close>.  The field \<open>value\<close> is
  called \<open>val\<close> here.  Objects are immutable, so a value of the datatype stands for an
  object.
\<close>

datatype N = N (val: int) (deferred: "OP list")
  and OP = INC | DEC | ADD N | SUB N | MUL N | DIV N

text \<open>
  The only exception of the source: \<open>throw new Error("Negative values are impossible")\<close>.
  Nothing in the source catches it.
\<close>

datatype error = NegativeValue

text \<open>
  The result of a call: \<open>None\<close> when the fuel ran out, \<open>Some (Inl e)\<close> when the call threw,
  \<open>Some (Inr (x, d))\<close> when it returned \<open>x\<close> and left the static counter
  \<open>N.#evalauateStackDepth\<close> at \<open>d\<close>.
\<close>

type_synonym 'a result = "(error + 'a \<times> int) option"

text \<open>The constructor of \<open>N\<close> (lines 18 to 25), with its check.\<close>

definition new_N :: "int \<Rightarrow> OP list \<Rightarrow> error + N" where
  "new_N v ds = (if v < 0 then Inl NegativeValue else Inr (N v ds))"

text \<open>\<open>new N(x)\<close>, which the specification calls \<open>value_from(x)\<close>.\<close>

definition value_from :: "int \<Rightarrow> error + N" where
  "value_from x = new_N x []"

text \<open>\<open>ZERO()\<close> and \<open>ONE()\<close> (lines 82 and 83); their constructor calls cannot throw.\<close>

definition ZERO :: N where
  "ZERO = N 0 []"

definition ONE :: N where
  "ONE = N 1 []"

text \<open>Sequencing: a throw or an exhausted fuel ends the computation.\<close>

definition and_then :: "'a result \<Rightarrow> ('a \<Rightarrow> int \<Rightarrow> 'b result) \<Rightarrow> 'b result" where
  "and_then m f =
     (case m of None \<Rightarrow> None
      | Some (Inl e) \<Rightarrow> Some (Inl e)
      | Some (Inr (x, d)) \<Rightarrow> f x d)"

text \<open>\<open>return new N(v, ds)\<close> with the counter at \<open>d\<close>.\<close>

definition return_new :: "int \<Rightarrow> OP list \<Rightarrow> int \<Rightarrow> N result" where
  "return_new v ds d = (case new_N v ds of Inl e \<Rightarrow> Some (Inl e) | Inr n \<Rightarrow> Some (Inr (n, d)))"

subsection \<open>Rendering\<close>

definition digit_char :: "nat \<Rightarrow> char" where
  "digit_char n = char_of (48 + n)"

fun show_nat :: "nat \<Rightarrow> string" where
  "show_nat n = (if n < 10 then [digit_char n] else show_nat (n div 10) @ [digit_char (n mod 10)])"

declare show_nat.simps [simp del]

text \<open>A bigint in a template literal is printed in decimal, with a minus sign when negative.\<close>

definition show_int :: "int \<Rightarrow> string" where
  "show_int i = (if i < 0 then CHR ''-'' # show_nat (nat (- i)) else show_nat (nat i))"

text \<open>\<open>Array.prototype.join\<close>.\<close>

fun join :: "string \<Rightarrow> string list \<Rightarrow> string" where
  "join sep [] = []"
| "join sep [x] = x"
| "join sep (x # y # ys) = x @ sep @ join sep (y # ys)"

text \<open>
  \<open>N.toString\<close> and the \<open>name\<close> of an operation, which its constructor computes from the
  operand's \<open>toString\<close>.
\<close>

fun toString :: "N \<Rightarrow> string"
  and name :: "OP \<Rightarrow> string" where
  "toString (N v ds) =
     (if length ds > 0 then show_int v @ ''['' @ join '', '' (map name ds) @ '']''
      else show_int v)"
| "name INC = ''INC''"
| "name DEC = ''DEC''"
| "name (ADD b) = ''ADD('' @ toString b @ '')''"
| "name (SUB b) = ''SUB('' @ toString b @ '')''"
| "name (MUL b) = ''MUL('' @ toString b @ '')''"
| "name (DIV b) = ''DIV('' @ toString b @ '')''"

section \<open>The evaluator\<close>

text \<open>
  \<open>evaluate\<close>, \<open>op\<close> and the \<open>execute\<close> methods call each other, and the loops of the
  binary operations need not end.  The functions are therefore defined together, as one
  function \<open>run\<close> over the kind of call, by recursion on a fuel that bounds the depth of
  calls and loop iterations.  The static counter is passed in and returned.

  \<^item> \<open>Evaluate this\<close> is \<open>this.evaluate()\<close> (lines 28 to 51) up to its \<open>while (true)\<close>,
    which is \<open>Drain\<close> with the loop's variables \<open>current\<close> and \<open>ops\<close>;
  \<^item> \<open>Op operation this\<close> is \<open>this.op(...)\<close> (lines 55 to 72), the operation already
    constructed; an operand object is always truthy and so is the operation, so only
    the last \<open>return\<close> of \<open>op\<close> is reached;
  \<^item> \<open>Execute operation n\<close> is \<open>operation.execute(n)\<close>;
  \<^item> \<open>ADD_while\<close>, \<open>SUB_while\<close>, \<open>MUL_while\<close>, \<open>DIV_while\<close> are the \<open>while\<close> loops of the
    binary operations (lines 117, 140, 164 and 186) together with the statements after
    them, with the loop's variables.

  A fuel of \<open>Suc fuel\<close> lets a call make its own calls with \<open>fuel\<close>; a throw is passed
  on to the caller, and the counter it leaves behind is not kept.
\<close>

datatype call =
    Evaluate N
  | Drain N "OP list"
  | Op OP N
  | Execute OP N
  | ADD_while N N
  | SUB_while N N
  | MUL_while N N N
  | DIV_while N N N

primrec run :: "nat \<Rightarrow> call \<Rightarrow> int \<Rightarrow> N result" where
  "run 0 c d = None"
| "run (Suc fuel) c d =
    (case c of
      Evaluate this \<Rightarrow>
        (if d + 1 > 10 then Some (Inr (this, d + 1 - 1))
         else case new_N (val this) [] of
                Inl e \<Rightarrow> Some (Inl e)
              | Inr current \<Rightarrow> run fuel (Drain current (deferred this)) (d + 1))
    | Drain current ops \<Rightarrow>
        (case ops of
           [] \<Rightarrow> Some (Inr (current, d - 1))
         | nextOp # restOps \<Rightarrow>
             and_then (run fuel (Execute nextOp current) d) (\<lambda>current' d'.
               if length (deferred current') > 0
               then return_new (val current') (deferred current' @ restOps) (d' - 1)
               else run fuel (Drain current' restOps) d'))
    | Op operation this \<Rightarrow>
        (case new_N (val this) (deferred this @ [operation]) of
           Inl e \<Rightarrow> Some (Inl e)
         | Inr n \<Rightarrow> run fuel (Evaluate n) d)
    | Execute operation n \<Rightarrow>
        (case operation of
           INC \<Rightarrow> return_new (val n + 1) (deferred n) d
         | DEC \<Rightarrow>
             (if val n = 0 then run fuel (Op DEC n) d
              else return_new (val n - 1) (deferred n) d)
         | ADD b \<Rightarrow> run fuel (ADD_while n b) d
         | SUB b \<Rightarrow> run fuel (SUB_while n b) d
         | MUL b \<Rightarrow> run fuel (MUL_while n n b) d
         | DIV b \<Rightarrow> run fuel (DIV_while b ZERO n) d)
    | ADD_while a b \<Rightarrow>
        (if val b > 0 then
           and_then (run fuel (Op INC a) d) (\<lambda>a' d'.
           and_then (run fuel (Op DEC b) d') (\<lambda>b' d''.
           run fuel (ADD_while a' b') d''))
         else if length (deferred b) > 0 then run fuel (Op (ADD b) a) d
         else Some (Inr (a, d)))
    | SUB_while a b \<Rightarrow>
        (if val b > 0 then
           and_then (run fuel (Op DEC a) d) (\<lambda>a' d'.
           and_then (run fuel (Op DEC b) d') (\<lambda>b' d''.
           run fuel (SUB_while a' b') d''))
         else if length (deferred b) > 0 then run fuel (Op (ADD b) a) d
         else Some (Inr (a, d)))
    | MUL_while n a counter \<Rightarrow>
        (if val counter > 1 then
           and_then (run fuel (Op (ADD n) a) d) (\<lambda>a' d'.
           and_then (run fuel (Op DEC counter) d') (\<lambda>counter' d''.
           run fuel (MUL_while n a' counter') d''))
         else Some (Inr (a, d)))
    | DIV_while b quot remainder \<Rightarrow>
        (if val remainder \<ge> val b \<and> val b > 0 then
           and_then (run fuel (Op (SUB b) remainder) d) (\<lambda>remainder' d'.
           and_then (run fuel (Op INC quot) d') (\<lambda>quot' d''.
           run fuel (DIV_while b quot' remainder') d''))
         else if val remainder = 0 then Some (Inr (quot, d))
         else
           and_then (run fuel (Op (DIV b) remainder) d) (\<lambda>x d'.
           run fuel (Op (ADD x) quot) d')))"

text \<open>
  The methods of the source, by name.  The equations of \<open>run\<close> for each kind of call are
  the lemmas \<open>run_Evaluate\<close> to \<open>run_DIV_while\<close> below.
\<close>

definition evaluate :: "nat \<Rightarrow> N \<Rightarrow> int \<Rightarrow> N result" where
  "evaluate fuel this d = run fuel (Evaluate this) d"

definition op_N :: "nat \<Rightarrow> OP \<Rightarrow> N \<Rightarrow> int \<Rightarrow> N result" where
  "op_N fuel operation this d = run fuel (Op operation this) d"

definition execute :: "nat \<Rightarrow> OP \<Rightarrow> N \<Rightarrow> int \<Rightarrow> N result" where
  "execute fuel operation n d = run fuel (Execute operation n) d"

section \<open>Predicates used in the statements\<close>

text \<open>
  No object of class \<open>N\<close> has a negative \<open>value\<close>: the constructor throws.  \<open>nonneg_N\<close>
  says so of a value of the model and of every operand captured inside it.
\<close>

fun nonneg_N :: "N \<Rightarrow> bool"
  and nonneg_OP :: "OP \<Rightarrow> bool" where
  "nonneg_N (N v ds) = (0 \<le> v \<and> list_all nonneg_OP ds)"
| "nonneg_OP INC = True"
| "nonneg_OP DEC = True"
| "nonneg_OP (ADD b) = nonneg_N b"
| "nonneg_OP (SUB b) = nonneg_N b"
| "nonneg_OP (MUL b) = nonneg_N b"
| "nonneg_OP (DIV b) = nonneg_N b"

fun nonneg_call :: "call \<Rightarrow> bool" where
  "nonneg_call (Evaluate this) = nonneg_N this"
| "nonneg_call (Drain current ops) = (nonneg_N current \<and> list_all nonneg_OP ops)"
| "nonneg_call (Op operation this) = (nonneg_OP operation \<and> nonneg_N this)"
| "nonneg_call (Execute operation n) = (nonneg_OP operation \<and> nonneg_N n)"
| "nonneg_call (ADD_while a b) = (nonneg_N a \<and> nonneg_N b)"
| "nonneg_call (SUB_while a b) = (nonneg_N a \<and> nonneg_N b)"
| "nonneg_call (MUL_while n a counter) = (nonneg_N n \<and> nonneg_N a \<and> nonneg_N counter)"
| "nonneg_call (DIV_while b quot remainder) = (nonneg_N b \<and> nonneg_N quot \<and> nonneg_N remainder)"

text \<open>The counter a call leaves behind when it returns: \<open>Drain\<close> is entered after the
  increment of \<open>evaluate\<close> and decrements before it returns.\<close>

fun counter_after :: "call \<Rightarrow> int \<Rightarrow> int" where
  "counter_after (Drain current ops) d = d - 1"
| "counter_after c d = d"

text \<open>
  An operation at the head of a pending queue that \<open>evaluate\<close> cannot complete on a value
  of magnitude \<open>v\<close>: a \<open>DEC\<close> at zero, and an \<open>ADD\<close> whose operand has magnitude zero
  and pending operations of its own.  A value is \<open>settled\<close> when its magnitude is not
  negative and its queue is empty or starts with such an operation.
\<close>

fun blocks :: "int \<Rightarrow> OP \<Rightarrow> bool" where
  "blocks v DEC = (v = 0)"
| "blocks v (ADD b) = (val b = 0 \<and> deferred b \<noteq> [])"
| "blocks v operation = False"

fun settled :: "N \<Rightarrow> bool" where
  "settled (N v []) = (0 \<le> v)"
| "settled (N v (operation # ds)) = (0 \<le> v \<and> blocks v operation)"

text \<open>\<open>wrap_ADD k x\<close> is \<open>x\<close> inside \<open>k\<close> values of magnitude zero, each with one pending \<open>ADD\<close>.\<close>

fun wrap_ADD :: "nat \<Rightarrow> N \<Rightarrow> N" where
  "wrap_ADD 0 x = x"
| "wrap_ADD (Suc k) x = N 0 [ADD (wrap_ADD k x)]"

text \<open>
  The value left after \<open>k\<close> applications of \<open>DEC\<close> to \<open>new N(a)\<close>: the magnitude goes
  down to zero, and every further \<open>DEC\<close> is appended to the pending queue.
\<close>

definition decremented :: "int \<Rightarrow> nat \<Rightarrow> N" where
  "decremented a k = (if int k \<le> a then N (a - int k) [] else N 0 (replicate (k - nat a) DEC))"

text \<open>
  What \<open>DIV.execute\<close> returns once its loop has ended with quotient \<open>q\<close> and remainder
  \<open>r\<close>: the quotient alone when \<open>r\<close> is zero, else the quotient with one pending \<open>ADD\<close>
  whose operand holds \<open>r\<close> with its pending \<open>DIV\<close> under \<open>k\<close> values of magnitude zero.
\<close>

definition DIV_outcome :: "int \<Rightarrow> int \<Rightarrow> N \<Rightarrow> nat \<Rightarrow> N" where
  "DIV_outcome q r b k =
     (if r = 0 then N q [] else N q [ADD (wrap_ADD k (N r [DIV b]))])"

text \<open>The operand of a binary operation is settled and has no negative magnitude inside.\<close>

fun operand_settled :: "OP \<Rightarrow> bool" where
  "operand_settled INC = True"
| "operand_settled DEC = True"
| "operand_settled (ADD b) = (settled b \<and> nonneg_N b)"
| "operand_settled (SUB b) = (settled b \<and> nonneg_N b)"
| "operand_settled (MUL b) = (settled b \<and> nonneg_N b)"
| "operand_settled (DIV b) = (settled b \<and> nonneg_N b)"

text \<open>
  The values of the public API: \<open>new N(x)\<close> with \<open>x \<ge> 0\<close> (which covers \<open>ZERO()\<close> and
  \<open>ONE()\<close>), and what \<open>op\<close> returns on such values, called with the static counter at
  its initial value 0.  (A call that returns leaves the counter where it found it, see
  \<open>run_safe\<close>.)
\<close>

inductive produced :: "N \<Rightarrow> bool" where
  literal: "0 \<le> x \<Longrightarrow> produced (N x [])"
| unary: "produced a \<Longrightarrow> operation = INC \<or> operation = DEC \<Longrightarrow>
    op_N fuel operation a 0 = Some (Inr (r, d)) \<Longrightarrow> produced r"
| binary: "produced a \<Longrightarrow> produced b \<Longrightarrow>
    operation = ADD b \<or> operation = SUB b \<or> operation = MUL b \<or> operation = DIV b \<Longrightarrow>
    op_N fuel operation a 0 = Some (Inr (r, d)) \<Longrightarrow> produced r"

text \<open>
  The stability check of the function \<open>test\<close> in \<open>main.ts\<close>:
  \<open>current = current.evaluate()\<close>, \<open>k\<close> times.
\<close>

fun evaluate_times :: "nat \<Rightarrow> nat \<Rightarrow> N \<Rightarrow> int \<Rightarrow> N result" where
  "evaluate_times fuel 0 n d = Some (Inr (n, d))"
| "evaluate_times fuel (Suc k) n d =
     and_then (evaluate fuel n d) (\<lambda>n' d'. evaluate_times fuel k n' d')"

text \<open>A call that no fuel lets return: the call does not end.\<close>

definition never_returns :: "call \<Rightarrow> int \<Rightarrow> bool" where
  "never_returns c d = (\<forall>fuel. run fuel c d = None)"

text \<open>The operand of a binary operation is a value of the public API.\<close>

fun operand_produced :: "OP \<Rightarrow> bool" where
  "operand_produced INC = True"
| "operand_produced DEC = True"
| "operand_produced (ADD b) = produced b"
| "operand_produced (SUB b) = produced b"
| "operand_produced (MUL b) = produced b"
| "operand_produced (DIV b) = produced b"

section \<open>Basic facts\<close>

lemma value_from_nonneg: "0 \<le> x \<Longrightarrow> value_from x = Inr (N x [])"
  by (simp add: value_from_def new_N_def)

lemma and_then_simps [simp]:
  "and_then None f = None"
  "and_then (Some (Inl e)) f = Some (Inl e)"
  "and_then (Some (Inr (x, d))) f = f x d"
  by (simp_all add: and_then_def)

lemma and_then_mono:
  assumes "and_then m f = Some r"
    and "\<And>x. m = Some x \<Longrightarrow> m' = Some x"
    and "\<And>x d y. f x d = Some y \<Longrightarrow> f' x d = Some y"
  shows "and_then m' f' = Some r"
  using assms by (auto simp: and_then_def split: option.splits sum.splits prod.splits)

text \<open>More fuel does not change a result, so a call has at most one result.\<close>

lemma run_mono: "run fuel c d = Some r \<Longrightarrow> fuel \<le> fuel' \<Longrightarrow> run fuel' c d = Some r"
proof (induction fuel arbitrary: c d r fuel')
  case 0
  then show ?case by simp
next
  case (Suc fuel)
  then obtain f' where f': "fuel' = Suc f'" "fuel \<le> f'"
    by (cases fuel') auto
  have IH: "\<And>c d r. run fuel c d = Some r \<Longrightarrow> run f' c d = Some r"
    using Suc.IH f'(2) by blast
  have A: "\<And>m f r m' f'. and_then m f = Some r \<Longrightarrow> (\<And>x. m = Some x \<Longrightarrow> m' = Some x)
    \<Longrightarrow> (\<And>x d y. f x d = Some y \<Longrightarrow> f' x d = Some y) \<Longrightarrow> and_then m' f' = Some (r :: error + N \<times> int)"
    by (rule and_then_mono)
  show ?case
  proof (cases c)
    case (Evaluate this)
    then show ?thesis using Suc.prems(1) f'(1) IH
      by (auto split: sum.splits if_splits)
  next
    case (Drain current ops)
    then show ?thesis using Suc.prems(1) f'(1)
      by (cases ops) (auto elim!: A intro: IH split: if_splits)
  next
    case (Op operation this)
    then show ?thesis using Suc.prems(1) f'(1) IH
      by (auto split: sum.splits if_splits)
  next
    case (Execute operation n)
    then show ?thesis using Suc.prems(1) f'(1) IH
      by (cases operation) (auto split: sum.splits if_splits)
  next
    case (ADD_while a b)
    then show ?thesis using Suc.prems(1) f'(1)
      by (auto elim!: A intro: IH split: if_splits)
  next
    case (SUB_while a b)
    then show ?thesis using Suc.prems(1) f'(1)
      by (auto elim!: A intro: IH split: if_splits)
  next
    case (MUL_while n a counter)
    then show ?thesis using Suc.prems(1) f'(1)
      by (auto elim!: A intro: IH split: if_splits)
  next
    case (DIV_while b quot remainder)
    then show ?thesis using Suc.prems(1) f'(1)
      by (auto elim!: A intro: IH split: if_splits)
  qed
qed

text \<open>The equations of the evaluator, one for every method and loop of the source.\<close>

lemma return_new_nonneg [simp]: "0 \<le> v \<Longrightarrow> return_new v ds d = Some (Inr (N v ds, d))"
  by (simp add: return_new_def new_N_def)

lemma new_N_nonneg [simp]: "0 \<le> v \<Longrightarrow> new_N v ds = Inr (N v ds)"
  by (simp add: new_N_def)

lemma new_N_negative [simp]: "v < 0 \<Longrightarrow> new_N v ds = Inl NegativeValue"
  by (simp add: new_N_def)

lemma run_Evaluate:
  "run (Suc fuel) (Evaluate this) d =
     (if d + 1 > 10 then Some (Inr (this, d + 1 - 1))
      else case new_N (val this) [] of
             Inl e \<Rightarrow> Some (Inl e)
           | Inr current \<Rightarrow> run fuel (Drain current (deferred this)) (d + 1))"
  by simp

lemma run_Drain_Nil:
  "run (Suc fuel) (Drain current []) d = Some (Inr (current, d - 1))"
  by simp

lemma run_Drain_Cons:
  "run (Suc fuel) (Drain current (nextOp # restOps)) d =
     and_then (run fuel (Execute nextOp current) d) (\<lambda>current' d'.
       if length (deferred current') > 0
       then return_new (val current') (deferred current' @ restOps) (d' - 1)
       else run fuel (Drain current' restOps) d')"
  by simp

lemma run_Op:
  "run (Suc fuel) (Op operation this) d =
     (case new_N (val this) (deferred this @ [operation]) of
        Inl e \<Rightarrow> Some (Inl e)
      | Inr n \<Rightarrow> run fuel (Evaluate n) d)"
  by simp

lemma run_Execute:
  "run (Suc fuel) (Execute INC n) d = return_new (val n + 1) (deferred n) d"
  "run (Suc fuel) (Execute DEC n) d =
     (if val n = 0 then run fuel (Op DEC n) d else return_new (val n - 1) (deferred n) d)"
  "run (Suc fuel) (Execute (ADD b) n) d = run fuel (ADD_while n b) d"
  "run (Suc fuel) (Execute (SUB b) n) d = run fuel (SUB_while n b) d"
  "run (Suc fuel) (Execute (MUL b) n) d = run fuel (MUL_while n n b) d"
  "run (Suc fuel) (Execute (DIV b) n) d = run fuel (DIV_while b ZERO n) d"
  by simp_all

lemma run_ADD_while:
  "run (Suc fuel) (ADD_while a b) d =
     (if val b > 0 then
        and_then (run fuel (Op INC a) d) (\<lambda>a' d'.
        and_then (run fuel (Op DEC b) d') (\<lambda>b' d''.
        run fuel (ADD_while a' b') d''))
      else if length (deferred b) > 0 then run fuel (Op (ADD b) a) d
      else Some (Inr (a, d)))"
  by simp

lemma run_SUB_while:
  "run (Suc fuel) (SUB_while a b) d =
     (if val b > 0 then
        and_then (run fuel (Op DEC a) d) (\<lambda>a' d'.
        and_then (run fuel (Op DEC b) d') (\<lambda>b' d''.
        run fuel (SUB_while a' b') d''))
      else if length (deferred b) > 0 then run fuel (Op (ADD b) a) d
      else Some (Inr (a, d)))"
  by simp

lemma run_MUL_while:
  "run (Suc fuel) (MUL_while n a counter) d =
     (if val counter > 1 then
        and_then (run fuel (Op (ADD n) a) d) (\<lambda>a' d'.
        and_then (run fuel (Op DEC counter) d') (\<lambda>counter' d''.
        run fuel (MUL_while n a' counter') d''))
      else Some (Inr (a, d)))"
  by simp

lemma run_DIV_while:
  "run (Suc fuel) (DIV_while b quot remainder) d =
     (if val remainder \<ge> val b \<and> val b > 0 then
        and_then (run fuel (Op (SUB b) remainder) d) (\<lambda>remainder' d'.
        and_then (run fuel (Op INC quot) d') (\<lambda>quot' d''.
        run fuel (DIV_while b quot' remainder') d''))
      else if val remainder = 0 then Some (Inr (quot, d))
      else
        and_then (run fuel (Op (DIV b) remainder) d) (\<lambda>x d'.
        run fuel (Op (ADD x) quot) d'))"
  by simp

lemmas run_unfold = run_Evaluate run_Drain_Nil run_Drain_Cons run_Op run_Execute
  run_ADD_while run_SUB_while run_MUL_while run_DIV_while

declare run.simps(2) [simp del]

lemma run_agree:
  assumes "run f1 c d = Some r1" and "run f2 c d = Some r2"
  shows "r1 = r2"
proof -
  have "run (max f1 f2) c d = Some r1" "run (max f1 f2) c d = Some r2"
    using assms by (auto intro: run_mono)
  then show ?thesis by simp
qed

lemma Op_INC_plain:
  assumes "0 \<le> v" "d < 10" "4 \<le> fuel"
  shows "run fuel (Op INC (N v [])) d = Some (Inr (N (v + 1) [], d))"
proof -
  have "run 4 (Op INC (N v [])) d = Some (Inr (N (v + 1) [], d))"
    using assms(1,2) by (simp add: numeral_eq_Suc run_unfold)
  then show ?thesis using assms(3) by (rule run_mono)
qed

lemma Op_DEC_plain:
  assumes "0 < v" "d < 10" "4 \<le> fuel"
  shows "run fuel (Op DEC (N v [])) d = Some (Inr (N (v - 1) [], d))"
proof -
  have "run 4 (Op DEC (N v [])) d = Some (Inr (N (v - 1) [], d))"
    using assms(1,2) by (simp add: numeral_eq_Suc run_unfold)
  then show ?thesis using assms(3) by (rule run_mono)
qed

text \<open>
  Safety.  On values without a negative magnitude no call throws, the value a call
  returns has no negative magnitude either, and the counter is back where the call found
  it (one lower for \<open>Drain\<close>, which starts after the increment).
\<close>

lemma nonneg_N_sel: "nonneg_N n \<longleftrightarrow> 0 \<le> val n \<and> list_all nonneg_OP (deferred n)"
  by (cases n) simp

lemma and_then_SomeE:
  assumes "and_then m f = Some x"
  obtains (Throw) e where "m = Some (Inl e)" "x = Inl e"
  | (Return) y d' where "m = Some (Inr (y, d'))" "f y d' = Some x"
  using assms by (auto simp: and_then_def split: option.splits sum.splits prod.splits)

lemma run_safe:
  "nonneg_call c \<Longrightarrow> run fuel c d = Some x \<Longrightarrow> \<exists>r. x = Inr (r, counter_after c d) \<and> nonneg_N r"
proof (induction fuel arbitrary: c d x)
  case 0
  then show ?case by simp
next
  case (Suc fuel)
  note IH = Suc.IH
  show ?case
  proof (cases c)
    case (Evaluate this)
    then show ?thesis using Suc.prems IH[of "Drain (N (val this) []) (deferred this)" "d + 1" x]
      by (cases this) (auto simp: run_unfold split: if_splits)
  next
    case (Drain current ops)
    show ?thesis
    proof (cases ops)
      case Nil
      then show ?thesis using Suc.prems Drain by (auto simp add: run_unfold)
    next
      case (Cons nextOp restOps)
      from Suc.prems(2) have "and_then (run fuel (Execute nextOp current) d) (\<lambda>current' d'.
         if length (deferred current') > 0
         then return_new (val current') (deferred current' @ restOps) (d' - 1)
         else run fuel (Drain current' restOps) d') = Some x"
        unfolding Drain Cons run_Drain_Cons .
      then show ?thesis
      proof (cases rule: and_then_SomeE)
        case (Throw e)
        then show ?thesis using IH[of "Execute nextOp current" d "Inl e"] Suc.prems(1) Drain Cons by simp
      next
        case (Return y d')
        from IH[OF _ Return(1)] Suc.prems(1) Drain Cons
        have y: "nonneg_N y" "d' = d" by auto
        show ?thesis
        proof (cases "deferred y = []")
          case True
          then show ?thesis using Return(2) y IH[of "Drain y restOps" d x] Suc.prems(1) Drain Cons
            by simp
        next
          case False
          then show ?thesis using Return(2) y Suc.prems(1) Drain Cons
            by (auto simp: nonneg_N_sel)
        qed
      qed
    qed
  next
    case (Op operation this)
    then show ?thesis using Suc.prems IH[of "Evaluate (N (val this) (deferred this @ [operation]))" d x]
      by (auto simp: run_unfold nonneg_N_sel)
  next
    case (Execute operation n)
    then show ?thesis using Suc.prems IH[of "Op DEC n" d x] IH[of "ADD_while n _" d x]
       IH[of "SUB_while n _" d x] IH[of "MUL_while n n _" d x] IH[of "DIV_while _ ZERO n" d x]
      by (cases operation) (auto simp: run_unfold nonneg_N_sel ZERO_def split: if_splits)
  next
    case (ADD_while a b)
    show ?thesis
    proof (cases "val b > 0")
      case True
      with Suc.prems(2) have "and_then (run fuel (Op INC a) d) (\<lambda>a' d'.
        and_then (run fuel (Op DEC b) d') (\<lambda>b' d''.
        run fuel (ADD_while a' b') d'')) = Some x"
        unfolding ADD_while by (simp add: run_unfold)
      then show ?thesis
      proof (cases rule: and_then_SomeE)
        case (Throw e)
        then show ?thesis using IH[of "Op INC a" d "Inl e"] Suc.prems(1) ADD_while by simp
      next
        case R1: (Return a' d')
        from IH[OF _ R1(1)] Suc.prems(1) ADD_while have a': "nonneg_N a'" "d' = d" by auto
        from R1(2) show ?thesis
        proof (cases rule: and_then_SomeE)
          case (Throw e)
          then show ?thesis using IH[of "Op DEC b" d' "Inl e"] Suc.prems(1) ADD_while by simp
        next
          case R2: (Return b' d'')
          from IH[OF _ R2(1)] Suc.prems(1) ADD_while have b': "nonneg_N b'" "d'' = d'" by auto
          show ?thesis using IH[OF _ R2(2)] a' b' ADD_while by simp
        qed
      qed
    next
      case False
      then show ?thesis using Suc.prems ADD_while IH[of "Op (ADD b) a" d x]
        by (auto simp: run_unfold split: if_splits)
    qed
  next
    case (SUB_while a b)
    show ?thesis
    proof (cases "val b > 0")
      case True
      with Suc.prems(2) have "and_then (run fuel (Op DEC a) d) (\<lambda>a' d'.
        and_then (run fuel (Op DEC b) d') (\<lambda>b' d''.
        run fuel (SUB_while a' b') d'')) = Some x"
        unfolding SUB_while by (simp add: run_unfold)
      then show ?thesis
      proof (cases rule: and_then_SomeE)
        case (Throw e)
        then show ?thesis using IH[of "Op DEC a" d "Inl e"] Suc.prems(1) SUB_while by simp
      next
        case R1: (Return a' d')
        from IH[OF _ R1(1)] Suc.prems(1) SUB_while have a': "nonneg_N a'" "d' = d" by auto
        from R1(2) show ?thesis
        proof (cases rule: and_then_SomeE)
          case (Throw e)
          then show ?thesis using IH[of "Op DEC b" d' "Inl e"] Suc.prems(1) SUB_while by simp
        next
          case R2: (Return b' d'')
          from IH[OF _ R2(1)] Suc.prems(1) SUB_while have b': "nonneg_N b'" "d'' = d'" by auto
          show ?thesis using IH[OF _ R2(2)] a' b' SUB_while by simp
        qed
      qed
    next
      case False
      then show ?thesis using Suc.prems SUB_while IH[of "Op (ADD b) a" d x]
        by (auto simp: run_unfold split: if_splits)
    qed
  next
    case (MUL_while n a counter)
    show ?thesis
    proof (cases "val counter > 1")
      case True
      with Suc.prems(2) have "and_then (run fuel (Op (ADD n) a) d) (\<lambda>a' d'.
        and_then (run fuel (Op DEC counter) d') (\<lambda>counter' d''.
        run fuel (MUL_while n a' counter') d'')) = Some x"
        unfolding MUL_while by (simp add: run_unfold)
      then show ?thesis
      proof (cases rule: and_then_SomeE)
        case (Throw e)
        then show ?thesis using IH[of "Op (ADD n) a" d "Inl e"] Suc.prems(1) MUL_while by simp
      next
        case R1: (Return a' d')
        from IH[OF _ R1(1)] Suc.prems(1) MUL_while have a': "nonneg_N a'" "d' = d" by auto
        from R1(2) show ?thesis
        proof (cases rule: and_then_SomeE)
          case (Throw e)
          then show ?thesis using IH[of "Op DEC counter" d' "Inl e"] Suc.prems(1) MUL_while by simp
        next
          case R2: (Return b' d'')
          from IH[OF _ R2(1)] Suc.prems(1) MUL_while have b': "nonneg_N b'" "d'' = d'" by auto
          show ?thesis using IH[OF _ R2(2)] a' b' MUL_while Suc.prems(1) by simp
        qed
      qed
    next
      case False
      then show ?thesis using Suc.prems MUL_while
        by (auto simp: run_unfold split: if_splits)
    qed
  next
    case (DIV_while b quot remainder)
    show ?thesis
    proof (cases "val remainder \<ge> val b \<and> val b > 0")
      case True
      with Suc.prems(2) have "and_then (run fuel (Op (SUB b) remainder) d) (\<lambda>remainder' d'.
        and_then (run fuel (Op INC quot) d') (\<lambda>quot' d''.
        run fuel (DIV_while b quot' remainder') d'')) = Some x"
        unfolding DIV_while by (simp add: run_unfold)
      then show ?thesis
      proof (cases rule: and_then_SomeE)
        case (Throw e)
        then show ?thesis using IH[of "Op (SUB b) remainder" d "Inl e"] Suc.prems(1) DIV_while by simp
      next
        case R1: (Return a' d')
        from IH[OF _ R1(1)] Suc.prems(1) DIV_while have a': "nonneg_N a'" "d' = d" by auto
        from R1(2) show ?thesis
        proof (cases rule: and_then_SomeE)
          case (Throw e)
          then show ?thesis using IH[of "Op INC quot" d' "Inl e"] Suc.prems(1) DIV_while by simp
        next
          case R2: (Return b' d'')
          from IH[OF _ R2(1)] Suc.prems(1) DIV_while have b': "nonneg_N b'" "d'' = d'" by auto
          show ?thesis using IH[OF _ R2(2)] a' b' DIV_while Suc.prems(1) by simp
        qed
      qed
    next
      case False
      show ?thesis
      proof (cases "val remainder = 0")
        case True
        then show ?thesis using False Suc.prems DIV_while
          by (auto simp: run_unfold split: if_splits)
      next
        case nz: False
        with False Suc.prems(2) have "and_then (run fuel (Op (DIV b) remainder) d) (\<lambda>x d'.
           run fuel (Op (ADD x) quot) d') = Some x"
          unfolding DIV_while by (auto simp add: run_unfold)
        then show ?thesis
        proof (cases rule: and_then_SomeE)
          case (Throw e)
          then show ?thesis using IH[of "Op (DIV b) remainder" d "Inl e"] Suc.prems(1) DIV_while by simp
        next
          case R1: (Return y d')
          from IH[OF _ R1(1)] Suc.prems(1) DIV_while have y: "nonneg_N y" "d' = d" by auto
          show ?thesis using IH[OF _ R1(2)] y DIV_while Suc.prems(1) by simp
        qed
      qed
    qed
  qed
qed

text \<open>
  \<open>evaluate\<close> on a value whose first pending operation blocks: the operation calls \<open>op\<close>
  again with the same value, the nested calls reach the depth bound, and on the way back
  every level returns the value as it was.
\<close>

lemma Evaluate_over_bound:
  "10 \<le> d \<Longrightarrow> run (Suc fuel) (Evaluate this) d = Some (Inr (this, d))"
  by (simp add: run_unfold)

lemma Evaluate_plain:
  assumes "0 \<le> v" "2 \<le> fuel"
  shows "run fuel (Evaluate (N v [])) d = Some (Inr (N v [], d))"
proof -
  have "run 2 (Evaluate (N v [])) d = Some (Inr (N v [], d))"
    using assms(1) by (simp add: numeral_eq_Suc run_unfold)
  then show ?thesis using assms(2) by (rule run_mono)
qed

lemma Evaluate_blocked:
  assumes "0 \<le> v" "blocks v operation"
  shows "5 * nat (10 - d) + 1 \<le> fuel \<Longrightarrow>
    run fuel (Evaluate (N v (operation # ds))) d = Some (Inr (N v (operation # ds), d))"
proof (induction "nat (10 - d)" arbitrary: d ds fuel)
  case 0
  then obtain m where "fuel = Suc m" "10 \<le> d"
    by (cases fuel) auto
  then show ?case by (simp add: Evaluate_over_bound)
next
  case (Suc k)
  then have d: "d < 10" "k = nat (10 - (d + 1))" by linarith+
  define m where "m = fuel - 5"
  have m: "fuel = Suc (Suc (Suc (Suc (Suc m))))" "5 * k + 1 \<le> m"
    using Suc.prems Suc.hyps(2) unfolding m_def by linarith+
  have inner: "run (Suc m) (Evaluate (N v [operation])) (d + 1) = Some (Inr (N v [operation], d + 1))"
    "run m (Evaluate (N v [operation])) (d + 1) = Some (Inr (N v [operation], d + 1))"
    using Suc.hyps(1)[OF d(2), of "Suc m" "[]"] Suc.hyps(1)[OF d(2), of m "[]"] m(2) d(2) by simp_all
  show ?case
  proof (cases operation)
    case DEC
    then show ?thesis using assms d(1) inner(1) unfolding m(1)
      by (simp add: run_unfold)
  next
    case (ADD b)
    then show ?thesis using assms d(1) inner(2) unfolding m(1)
      by (simp add: run_unfold)
  qed (use assms in simp_all)
qed

lemma Op_blocked:
  assumes "0 \<le> v" "blocks v operation" "5 * nat (10 - d) + 2 \<le> fuel"
  shows "run fuel (Op new_op (N v (operation # ds))) d =
           Some (Inr (N v (operation # ds @ [new_op]), d))"
proof -
  from assms(3) obtain m where m: "fuel = Suc m" "5 * nat (10 - d) + 1 \<le> m"
    by (cases fuel) auto
  show ?thesis unfolding m(1) using assms(1) Evaluate_blocked[OF assms(1,2) m(2), of "ds @ [new_op]"]
    by (simp add: run_unfold)
qed

lemma Op_DEC_zero:
  assumes "5 * nat (10 - d) + 2 \<le> fuel"
  shows "run fuel (Op DEC (N 0 [])) d = Some (Inr (N 0 [DEC], d))"
proof -
  from assms obtain m where m: "fuel = Suc m" "5 * nat (10 - d) + 1 \<le> m"
    by (cases fuel) auto
  show ?thesis unfolding m(1) using Evaluate_blocked[of 0 DEC d m "[]"] m(2)
    by (simp add: run_unfold)
qed


subsection \<open>The loops on operands without pending operations\<close>

text \<open>
  What the four binary operations return on \<open>new N(a)\<close> and \<open>new N(b)\<close>, at a counter low
  enough for the nested calls of \<open>op\<close> to be evaluated.
\<close>

lemma ADD_while_plain:
  assumes "d < 10"
  shows "0 \<le> a \<Longrightarrow> 0 \<le> b \<Longrightarrow> nat b + 5 \<le> fuel \<Longrightarrow>
    run fuel (ADD_while (N a []) (N b [])) d = Some (Inr (N (a + b) [], d))"
proof (induction "nat b" arbitrary: a b fuel)
  case 0
  then obtain m where "fuel = Suc m" by (cases fuel) auto
  with 0 show ?case by (simp add: run_unfold)
next
  case (Suc k)
  then obtain m where m: "fuel = Suc m" "k + 5 \<le> m"
    by (cases fuel) auto
  have b: "0 < b" "k = nat (b - 1)" "0 \<le> b - 1" using Suc.hyps(2) by linarith+
  have "run m (ADD_while (N (a + 1) []) (N (b - 1) [])) d = Some (Inr (N (a + 1 + (b - 1)) [], d))"
    using Suc.hyps(1)[OF b(2), of "a + 1" m] Suc.prems(1) b(3) m(2) b(2) by simp
  then show ?case unfolding m(1) using b(1) m(2) Suc.prems(1) assms
    by (simp add: run_unfold Op_INC_plain Op_DEC_plain)
qed

lemma Op_plain_via_Execute:
  assumes "0 \<le> v" "d < 10" "0 \<le> val x"
    and "run m (Execute operation (N v [])) (d + 1) = Some (Inr (x, d + 1))"
  shows "run (Suc (Suc (Suc m))) (Op operation (N v [])) d = Some (Inr (x, d))"
proof -
  from assms(4) obtain m' where m': "m = Suc m'" by (cases m) auto
  have "run (Suc m) (Drain (N v []) [operation]) (d + 1) = Some (Inr (x, d))"
    using assms(3,4) by (cases x) (auto simp add: run_unfold m')
  then show ?thesis using assms(1,2) by (simp add: run_unfold)
qed

lemma Op_ADD_plain:
  assumes "d < 9" "0 \<le> a" "0 \<le> b" "nat b + 9 \<le> fuel"
  shows "run fuel (Op (ADD (N b [])) (N a [])) d = Some (Inr (N (a + b) [], d))"
proof -
  define m where "m = fuel - 4"
  have m: "fuel = Suc (Suc (Suc (Suc m)))" "nat b + 5 \<le> m"
    using assms(4) unfolding m_def by linarith+
  have "run (Suc m) (Execute (ADD (N b [])) (N a [])) (d + 1) = Some (Inr (N (a + b) [], d + 1))"
    using assms(1-3) ADD_while_plain[of "d + 1" a b m] m(2) by (simp add: run_unfold)
  then show ?thesis unfolding m(1) using assms(1-3) by (intro Op_plain_via_Execute) auto
qed

lemma Op_DEC_decremented:
  assumes "0 \<le> a" "0 \<le> d" "d < 10" "52 \<le> fuel"
  shows "run fuel (Op DEC (decremented a k)) d = Some (Inr (decremented a (Suc k), d))"
proof -
  consider "int k < a" | "int k = a" | "a < int k" by linarith
  then show ?thesis
  proof cases
    case 1
    then show ?thesis using assms Op_DEC_plain[of "a - int k" d fuel] by (simp add: decremented_def)
  next
    case 2
    then show ?thesis using assms Op_DEC_zero[of d fuel] by (auto simp: decremented_def)
  next
    case 3
    then obtain j where j: "k - nat a = Suc j" using assms(1)
      by (metis Suc_diff_Suc nat_less_iff zless_nat_conj not_less zero_less_diff)
    have k: "Suc k - nat a = Suc (Suc j)" using j by linarith
    have "run fuel (Op DEC (N 0 (DEC # replicate j DEC))) d =
           Some (Inr (N 0 (DEC # replicate j DEC @ [DEC]), d))"
      using assms by (intro Op_blocked) auto
    then show ?thesis using 3 j k by (simp add: replicate_append_same decremented_def)
  qed
qed

lemma SUB_while_plain:
  assumes "0 \<le> a" "0 \<le> d" "d < 10"
  shows "0 \<le> b \<Longrightarrow> nat b + 53 \<le> fuel \<Longrightarrow>
    run fuel (SUB_while (decremented a k) (N b [])) d = Some (Inr (decremented a (k + nat b), d))"
proof (induction "nat b" arbitrary: k b fuel)
  case 0
  then obtain m where "fuel = Suc m" by (cases fuel) auto
  with 0 show ?case by (simp add: run_unfold)
next
  case (Suc j)
  then obtain m where m: "fuel = Suc m" "j + 53 \<le> m"
    by (cases fuel) auto
  have b: "0 < b" "j = nat (b - 1)" "0 \<le> b - 1" "nat b = Suc j" using Suc.hyps(2) by linarith+
  have 1: "run m (Op DEC (decremented a k)) d = Some (Inr (decremented a (Suc k), d))"
    using assms m(2) by (intro Op_DEC_decremented) auto
  have 2: "run m (Op DEC (N b [])) d = Some (Inr (N (b - 1) [], d))"
    using assms m(2) b(1) by (intro Op_DEC_plain) auto
  have 3: "run m (SUB_while (decremented a (Suc k)) (N (b - 1) [])) d =
     Some (Inr (decremented a (Suc k + nat (b - 1)), d))"
    using Suc.hyps(1)[OF b(2), of m "Suc k"] b(3) m(2) b(2) by simp
  have "run (Suc m) (SUB_while (decremented a k) (N b [])) d =
     Some (Inr (decremented a (Suc k + nat (b - 1)), d))"
    unfolding run_SUB_while using b(1) 1 2 3 by (simp)
  then show ?case unfolding m(1) using b(2,4) by (simp)
qed

lemma decremented_nonneg: "0 \<le> a \<Longrightarrow> 0 \<le> val (decremented a k)"
  by (simp add: decremented_def)

lemma decremented_0 [simp]: "0 \<le> a \<Longrightarrow> decremented a 0 = N a []"
  by (simp add: decremented_def)

lemma Op_SUB_plain:
  assumes "0 \<le> d" "d < 9" "0 \<le> a" "0 \<le> b" "nat b + 57 \<le> fuel"
  shows "run fuel (Op (SUB (N b [])) (N a [])) d = Some (Inr (decremented a (nat b), d))"
proof -
  define m where "m = fuel - 4"
  have m: "fuel = Suc (Suc (Suc (Suc m)))" "nat b + 53 \<le> m"
    using assms(5) unfolding m_def by linarith+
  have loop: "run m (SUB_while (N a []) (N b [])) (d + 1) = Some (Inr (decremented a (nat b), d + 1))"
    using SUB_while_plain[of a "d + 1" b m 0] assms m(2) by simp
  have "run (Suc m) (Execute (SUB (N b [])) (N a [])) (d + 1) =
     Some (Inr (decremented a (nat b), d + 1))"
    using loop by (simp add: run_unfold)
  then show ?thesis unfolding m(1) using assms(1-4) decremented_nonneg[of a "nat b"]
    by (intro Op_plain_via_Execute) auto
qed

lemma MUL_while_plain:
  assumes "d < 9" "0 \<le> v"
  shows "0 \<le> acc \<Longrightarrow> 0 \<le> c \<Longrightarrow> nat c + nat v + 10 \<le> fuel \<Longrightarrow>
    run fuel (MUL_while (N v []) (N acc []) (N c [])) d =
      Some (Inr (N (acc + v * int (nat c - 1)) [], d))"
proof (induction "nat c" arbitrary: acc c fuel)
  case 0
  then obtain m where "fuel = Suc m" by (cases fuel) auto
  with 0 show ?case by (simp add: run_unfold)
next
  case (Suc k)
  then obtain m where m: "fuel = Suc m" "k + nat v + 10 \<le> m"
    by (cases fuel) auto
  show ?case
  proof (cases "c > 1")
    case False
    then have "nat c - 1 = 0" by linarith
    then show ?thesis unfolding m(1) using False by (simp add: run_unfold)
  next
    case True
    have c: "k = nat (c - 1)" "0 \<le> c - 1" "nat c - 1 = Suc (nat (c - 1) - 1)"
      using Suc.hyps(2) True by linarith+
    have 1: "run m (Op (ADD (N v [])) (N acc [])) d = Some (Inr (N (acc + v) [], d))"
      using assms Suc.prems(1) m(2) by (intro Op_ADD_plain) auto
    have 2: "run m (Op DEC (N c [])) d = Some (Inr (N (c - 1) [], d))"
      using assms True m(2) by (intro Op_DEC_plain) auto
    have 3: "run m (MUL_while (N v []) (N (acc + v) []) (N (c - 1) [])) d =
      Some (Inr (N (acc + v + v * int (nat (c - 1) - 1)) [], d))"
      using Suc.hyps(1)[OF c(1), of "acc + v" m] Suc.prems(1) assms(2) c(1,2) m(2) by simp
    have "acc + v + v * int (nat (c - 1) - 1) = acc + v * int (nat c - 1)"
      unfolding c(3) by (simp add: algebra_simps)
    then show ?thesis unfolding m(1) run_MUL_while using True 1 2 3 by simp
  qed
qed

lemma Op_MUL_plain:
  assumes "d < 8" "0 \<le> v" "0 \<le> c" "nat c + nat v + 14 \<le> fuel"
  shows "run fuel (Op (MUL (N c [])) (N v [])) d =
     Some (Inr (N (v + v * int (nat c - 1)) [], d))"
proof -
  define m where "m = fuel - 4"
  have m: "fuel = Suc (Suc (Suc (Suc m)))" "nat c + nat v + 10 \<le> m"
    using assms(4) unfolding m_def by linarith+
  have "run (Suc m) (Execute (MUL (N c [])) (N v [])) (d + 1) =
     Some (Inr (N (v + v * int (nat c - 1)) [], d + 1))"
    using assms(1-3) MUL_while_plain[of "d + 1" v v c m] m(2) by (simp add: run_unfold)
  then show ?thesis unfolding m(1) using assms(1-3) by (intro Op_plain_via_Execute) auto
qed

lemma wrap_ADD_blocks: "blocks v (ADD (wrap_ADD (Suc k) y))"
  by simp

lemma Op_ADD_wrapped:
  assumes "0 \<le> q" "5 * nat (10 - d) + 2 \<le> fuel"
  shows "run fuel (Op (ADD (wrap_ADD (nat (10 - d)) y)) (N q [])) d =
     Some (Inr (N q [ADD (wrap_ADD (nat (10 - d)) y)], d))"
proof -
  from assms(2) obtain m where m: "fuel = Suc m" "5 * nat (10 - d) + 1 \<le> m"
    by (cases fuel) auto
  then obtain m' where m': "m = Suc m'" by (cases m) auto
  show ?thesis
  proof (cases "10 \<le> d")
    case True
    then show ?thesis unfolding m(1) m' using assms(1)
      by (simp add: run_Op Evaluate_over_bound)
  next
    case False
    then obtain k where k: "nat (10 - d) = Suc k"
      by (cases "nat (10 - d)") auto
    have "run m (Evaluate (N q [ADD (wrap_ADD (Suc k) y)])) d =
       Some (Inr (N q [ADD (wrap_ADD (Suc k) y)], d))"
      using assms(1) m(2) by (intro Evaluate_blocked wrap_ADD_blocks) auto
    then show ?thesis unfolding m(1) k using assms(1) by (simp add: run_Op)
  qed
qed

lemma Op_DIV_remainder:
  assumes "0 < r" "val b = 0 \<or> r < val b"
  shows "5 * nat (10 - d) + 2 \<le> fuel \<Longrightarrow>
    run fuel (Op (DIV b) (N r [])) d = Some (Inr (wrap_ADD (nat (10 - d)) (N r [DIV b]), d))"
proof (induction "nat (10 - d)" arbitrary: d fuel)
  case 0
  define m where "m = fuel - 2"
  have m: "fuel = Suc (Suc m)" using 0 unfolding m_def by linarith
  have "10 \<le> d" using 0 by linarith
  then show ?case unfolding m using assms(1) 0(1)[symmetric]
    by (simp add: run_Op Evaluate_over_bound)
next
  case (Suc k)
  then have d: "d < 10" "k = nat (10 - (d + 1))" by linarith+
  define m where "m = fuel - 5"
  have m: "fuel = Suc (Suc (Suc (Suc (Suc m))))" "5 * k + 2 \<le> m"
    using Suc.prems Suc.hyps(2) unfolding m_def by linarith+
  define X where "X = wrap_ADD k (N r [DIV b])"
  have 1: "run m (Op (DIV b) (N r [])) (d + 1) = Some (Inr (X, d + 1))"
    unfolding X_def using Suc.hyps(1)[OF d(2), of m] m(2) d(2) by simp
  have 2: "run m (Op (ADD X) (N 0 [])) (d + 1) = Some (Inr (N 0 [ADD X], d + 1))"
    unfolding X_def d(2) using m(2) d(2) by (intro Op_ADD_wrapped) auto
  have "run (Suc m) (DIV_while b ZERO (N r [])) (d + 1) = Some (Inr (N 0 [ADD X], d + 1))"
    unfolding run_DIV_while using assms 1 2 by (auto simp: ZERO_def)
  then have "run (Suc (Suc (Suc m))) (Drain (N r []) [DIV b]) (d + 1) = Some (Inr (N 0 [ADD X], d))"
    by (simp add: run_unfold)
  then have "run fuel (Op (DIV b) (N r [])) d = Some (Inr (N 0 [ADD X], d))"
    unfolding m(1) using assms(1) d(1) by (simp add: run_unfold)
  then show ?case unfolding X_def Suc.hyps(2)[symmetric] by simp
qed

lemma DIV_while_exit:
  assumes "0 \<le> r" "val b = 0 \<or> r < val b" "0 \<le> q" "54 \<le> fuel" "0 \<le> d"
  shows "run fuel (DIV_while b (N q []) (N r [])) d =
     Some (Inr (DIV_outcome q r b (nat (10 - d)), d))"
proof -
  from assms(4) obtain m where m: "fuel = Suc m" "53 \<le> m"
    by (cases fuel) auto
  show ?thesis
  proof (cases "r = 0")
    case True
    then show ?thesis unfolding m(1) run_DIV_while using assms(2)
      by (auto simp: DIV_outcome_def)
  next
    case False
    then have r: "0 < r" using assms(1) by simp
    have 1: "run m (Op (DIV b) (N r [])) d = Some (Inr (wrap_ADD (nat (10 - d)) (N r [DIV b]), d))"
      using r assms(2,5) m(2) by (intro Op_DIV_remainder) auto
    have 2: "run m (Op (ADD (wrap_ADD (nat (10 - d)) (N r [DIV b]))) (N q [])) d =
      Some (Inr (N q [ADD (wrap_ADD (nat (10 - d)) (N r [DIV b]))], d))"
      using assms(3,5) m(2) by (intro Op_ADD_wrapped) auto
    show ?thesis unfolding m(1) run_DIV_while using assms(2) False 1 2
      by (auto simp: DIV_outcome_def)
  qed
qed

lemma DIV_while_plain:
  assumes "0 \<le> d" "d < 9" "0 < b"
  shows "0 \<le> r \<Longrightarrow> 0 \<le> q \<Longrightarrow> nat r + nat b + 60 \<le> fuel \<Longrightarrow>
    run fuel (DIV_while (N b []) (N q []) (N r [])) d =
      Some (Inr (DIV_outcome (q + r div b) (r mod b) (N b []) (nat (10 - d)), d))"
proof (induction "nat r" arbitrary: r q fuel rule: less_induct)
  case less
  show ?case
  proof (cases "b \<le> r")
    case False
    then have "r div b = 0" "r mod b = r" using less.prems(1) by simp_all
    then show ?thesis
      using DIV_while_exit[of r "N b []" q fuel d] less.prems assms False by simp
  next
    case True
    from less.prems(3) obtain m where m: "fuel = Suc m" "nat r + nat b + 59 \<le> m"
      by (cases fuel) auto
    have 1: "run m (Op (SUB (N b [])) (N r [])) d = Some (Inr (N (r - b) [], d))"
      using Op_SUB_plain[of d r b m] assms less.prems(1) m(2) True by (simp add: decremented_def)
    have 2: "run m (Op INC (N q [])) d = Some (Inr (N (q + 1) [], d))"
      using assms less.prems(2) m(2) by (intro Op_INC_plain) auto
    have 3: "run m (DIV_while (N b []) (N (q + 1) []) (N (r - b) [])) d =
      Some (Inr (DIV_outcome (q + 1 + (r - b) div b) ((r - b) mod b) (N b []) (nat (10 - d)), d))"
      using less.hyps[of "r - b" "q + 1" m] True assms(3) less.prems(1,2) m(2) by simp
    have "(r - b + b) div b = (r - b) div b + 1"
      using assms(3) by (intro div_add_self2) simp
    then have 4: "(r - b) div b = r div b - 1" "(r - b) mod b = r mod b"
      by simp_all
    show ?thesis unfolding m(1) run_DIV_while using True assms(3) 1 2 3 4 by simp
  qed
qed

lemma DIV_outcome_val [simp]: "val (DIV_outcome q r b k) = q"
  by (simp add: DIV_outcome_def)

lemma Op_DIV_plain:
  assumes "0 \<le> d" "d < 8" "0 \<le> a" "0 < b" "nat a + nat b + 64 \<le> fuel"
  shows "run fuel (Op (DIV (N b [])) (N a [])) d =
     Some (Inr (DIV_outcome (a div b) (a mod b) (N b []) (nat (9 - d)), d))"
proof -
  define m where "m = fuel - 4"
  have m: "fuel = Suc (Suc (Suc (Suc m)))" "nat a + nat b + 60 \<le> m"
    using assms(5) unfolding m_def by linarith+
  have "nat (10 - (d + 1)) = nat (9 - d)" by simp
  then have "run (Suc m) (Execute (DIV (N b [])) (N a [])) (d + 1) =
     Some (Inr (DIV_outcome (a div b) (a mod b) (N b []) (nat (9 - d)), d + 1))"
    using DIV_while_plain[of "d + 1" b a 0 m] assms(1-4) m(2) by (simp add: run_unfold ZERO_def)
  moreover have "0 \<le> a div b" using assms(3,4) by (simp add: pos_imp_zdiv_nonneg_iff)
  ultimately show ?thesis unfolding m(1) using assms(1-3) by (intro Op_plain_via_Execute) auto
qed

lemma Op_DIV_no_iteration:
  assumes "0 \<le> d" "d < 10" "0 \<le> a" "val b = 0 \<or> a < val b" "58 \<le> fuel"
  shows "run fuel (Op (DIV b) (N a [])) d = Some (Inr (DIV_outcome 0 a b (nat (9 - d)), d))"
proof -
  define m where "m = fuel - 4"
  have m: "fuel = Suc (Suc (Suc (Suc m)))" "54 \<le> m"
    using assms(5) unfolding m_def by linarith+
  have "nat (10 - (d + 1)) = nat (9 - d)" by simp
  then have "run (Suc m) (Execute (DIV b) (N a [])) (d + 1) =
     Some (Inr (DIV_outcome 0 a b (nat (9 - d)), d + 1))"
    using DIV_while_exit[of a b 0 m "d + 1"] assms(1-4) m(2) by (simp add: run_unfold ZERO_def)
  then show ?thesis unfolding m(1) using assms(1-3) by (intro Op_plain_via_Execute) auto
qed

lemma Op_ADD_operand_blocked:
  assumes "0 \<le> v" "val b = 0" "deferred b \<noteq> []" "5 * nat (10 - d) + 2 \<le> fuel"
  shows "run fuel (Op (ADD b) (N v [])) d = Some (Inr (N v [ADD b], d))"
proof -
  from assms(4) obtain m where m: "fuel = Suc m" "5 * nat (10 - d) + 1 \<le> m"
    by (cases fuel) auto
  have "run m (Evaluate (N v [ADD b])) d = Some (Inr (N v [ADD b], d))"
    using assms(1-3) m(2) by (intro Evaluate_blocked) auto
  then show ?thesis unfolding m(1) using assms(1) by (simp add: run_Op)
qed

lemma Op_SUB_operand_blocked:
  assumes "0 \<le> v" "val b = 0" "deferred b \<noteq> []" "0 \<le> d" "d < 10" "56 \<le> fuel"
  shows "run fuel (Op (SUB b) (N v [])) d = Some (Inr (N v [ADD b], d))"
proof -
  define m where "m = fuel - 5"
  have m: "fuel = Suc (Suc (Suc (Suc (Suc m))))" "51 \<le> m"
    using assms(6) unfolding m_def by linarith+
  have "run m (Op (ADD b) (N v [])) (d + 1) = Some (Inr (N v [ADD b], d + 1))"
    using assms(1-5) m(2) by (intro Op_ADD_operand_blocked) auto
  then have "run (Suc (Suc m)) (Execute (SUB b) (N v [])) (d + 1) = Some (Inr (N v [ADD b], d + 1))"
    using assms(2,3) by (simp add: run_unfold)
  then show ?thesis unfolding m(1) using assms(1,5) by (intro Op_plain_via_Execute) auto
qed

lemma Op_MUL_no_iteration:
  assumes "0 \<le> v" "val b \<le> 1" "d < 10" "5 \<le> fuel"
  shows "run fuel (Op (MUL b) (N v [])) d = Some (Inr (N v [], d))"
proof -
  define m where "m = fuel - 5"
  have m: "fuel = Suc (Suc (Suc (Suc (Suc m))))"
    using assms(4) unfolding m_def by linarith+
  have "run (Suc (Suc m)) (Execute (MUL b) (N v [])) (d + 1) = Some (Inr (N v [], d + 1))"
    using assms(2) by (simp add: run_unfold)
  then show ?thesis unfolding m(1) using assms(1,3) by (intro Op_plain_via_Execute) auto
qed

subsection \<open>Loops that never end\<close>

text \<open>
  An operand with a positive magnitude and a first pending operation that blocks keeps
  its magnitude under \<open>op(DEC)\<close>, which only appends to its queue.  A loop that waits for
  this magnitude to reach zero (or one, in \<open>MUL\<close>) runs out of any fuel.
\<close>

lemma run_None_mono:
  assumes "run fuel' c d = None" "fuel \<le> fuel'"
  shows "run fuel c d = None"
proof (rule ccontr)
  assume "run fuel c d \<noteq> None"
  then obtain r where "run fuel c d = Some r" by auto
  then have "run fuel' c d = Some r" using assms(2) by (rule run_mono)
  with assms(1) show False by simp
qed

lemma Op_DEC_blocked_result:
  assumes "0 \<le> v" "blocks v operation" "run fuel (Op DEC (N v (operation # ds @ replicate k DEC))) d = Some x"
  shows "x = Inr (N v (operation # ds @ replicate (Suc k) DEC), d)"
proof -
  have "run (5 * nat (10 - d) + 2) (Op DEC (N v (operation # ds @ replicate k DEC))) d =
     Some (Inr (N v (operation # (ds @ replicate k DEC) @ [DEC]), d))"
    using assms(1,2) by (intro Op_blocked) auto
  with assms(3) have "x = Inr (N v (operation # (ds @ replicate k DEC) @ [DEC]), d)"
    by (rule run_agree)
  then show ?thesis by (simp add: replicate_append_same)
qed

lemma nonneg_N_append_DEC:
  "nonneg_N (N v (operation # ds)) \<Longrightarrow> nonneg_N (N v (operation # ds @ replicate k DEC))"
  by (auto simp add: list_all_iff)

lemma ADD_while_never_returns:
  assumes "0 < v" "blocks v operation" "nonneg_N (N v (operation # ds))"
  shows "nonneg_N a \<Longrightarrow> run fuel (ADD_while a (N v (operation # ds @ replicate k DEC))) d = None"
proof (induction fuel arbitrary: a k)
  case 0
  show ?case by simp
next
  case (Suc fuel)
  let ?b = "N v (operation # ds @ replicate k DEC)"
  have b: "nonneg_N ?b" using assms(3) by (rule nonneg_N_append_DEC)
  show ?case
  proof (cases "run fuel (Op INC a) d")
    case None
    then show ?thesis using assms(1) by (simp add: run_unfold)
  next
    case (Some x)
    with run_safe[of "Op INC a" fuel d x] Suc.prems obtain a' where
      a': "x = Inr (a', d)" "nonneg_N a'" by auto
    show ?thesis
    proof (cases "run fuel (Op DEC ?b) d")
      case None
      then show ?thesis using assms(1) Some a' by (simp add: run_unfold)
    next
      case Some2: (Some y)
      have y: "y = Inr (N v (operation # ds @ replicate (Suc k) DEC), d)"
        using assms(1,2) Some2 by (intro Op_DEC_blocked_result) auto
      show ?thesis using assms(1) Some a' Some2 y Suc.IH[OF a'(2), of "Suc k"]
        by (simp add: run_unfold)
    qed
  qed
qed

lemma SUB_while_never_returns:
  assumes "0 < v" "blocks v operation" "nonneg_N (N v (operation # ds))"
  shows "nonneg_N a \<Longrightarrow> run fuel (SUB_while a (N v (operation # ds @ replicate k DEC))) d = None"
proof (induction fuel arbitrary: a k)
  case 0
  show ?case by simp
next
  case (Suc fuel)
  let ?b = "N v (operation # ds @ replicate k DEC)"
  have b: "nonneg_N ?b" using assms(3) by (rule nonneg_N_append_DEC)
  show ?case
  proof (cases "run fuel (Op DEC a) d")
    case None
    then show ?thesis using assms(1) by (simp add: run_unfold)
  next
    case (Some x)
    with run_safe[of "Op DEC a" fuel d x] Suc.prems obtain a' where
      a': "x = Inr (a', d)" "nonneg_N a'" by auto
    show ?thesis
    proof (cases "run fuel (Op DEC ?b) d")
      case None
      then show ?thesis using assms(1) Some a' by (simp add: run_unfold)
    next
      case Some2: (Some y)
      have y: "y = Inr (N v (operation # ds @ replicate (Suc k) DEC), d)"
        using assms(1,2) Some2 by (intro Op_DEC_blocked_result) auto
      show ?thesis using assms(1) Some a' Some2 y Suc.IH[OF a'(2), of "Suc k"]
        by (simp add: run_unfold)
    qed
  qed
qed

lemma MUL_while_never_returns:
  assumes "1 < v" "blocks v operation" "nonneg_N (N v (operation # ds))" "nonneg_N n"
  shows "nonneg_N a \<Longrightarrow> run fuel (MUL_while n a (N v (operation # ds @ replicate k DEC))) d = None"
proof (induction fuel arbitrary: a k)
  case 0
  show ?case by simp
next
  case (Suc fuel)
  let ?b = "N v (operation # ds @ replicate k DEC)"
  have b: "nonneg_N ?b" using assms(3) by (rule nonneg_N_append_DEC)
  show ?case
  proof (cases "run fuel (Op (ADD n) a) d")
    case None
    then show ?thesis using assms(1) by (simp add: run_unfold)
  next
    case (Some x)
    with run_safe[of "Op (ADD n) a" fuel d x] Suc.prems assms(4) obtain a' where
      a': "x = Inr (a', d)" "nonneg_N a'" by auto
    show ?thesis
    proof (cases "run fuel (Op DEC ?b) d")
      case None
      then show ?thesis using assms(1) Some a' by (simp add: run_unfold)
    next
      case Some2: (Some y)
      have y: "y = Inr (N v (operation # ds @ replicate (Suc k) DEC), d)"
        using assms(1,2) Some2 by (intro Op_DEC_blocked_result) auto
      show ?thesis using assms(1) Some a' Some2 y Suc.IH[OF a'(2), of "Suc k"]
        by (simp add: run_unfold)
    qed
  qed
qed

lemma Evaluate_ADD_never_returns:
  assumes "0 < v" "blocks v operation" "nonneg_N (N v (operation # ds))" "0 \<le> a" "d < 10"
  shows "run fuel (Evaluate (N a [ADD (N v (operation # ds))])) d = None"
proof -
  have "run fuel' (ADD_while (N a []) (N v (operation # ds))) (d + 1) = None" for fuel'
    using ADD_while_never_returns[OF assms(1-3), of "N a []" fuel' 0 "d + 1"] assms(4) by simp
  then have "run (Suc (Suc (Suc fuel))) (Evaluate (N a [ADD (N v (operation # ds))])) d = None"
    using assms(4,5) by (simp add: run_unfold)
  then show ?thesis by (rule run_None_mono) simp
qed

lemma Op_ADD_never_returns:
  assumes "0 < v" "blocks v operation" "nonneg_N (N v (operation # ds))" "0 \<le> a" "d < 10"
  shows "run fuel (Op (ADD (N v (operation # ds))) (N a [])) d = None"
proof -
  have "run (Suc fuel) (Op (ADD (N v (operation # ds))) (N a [])) d = None"
    using Evaluate_ADD_never_returns[OF assms] assms(4) by (simp add: run_unfold)
  then show ?thesis by (rule run_None_mono) simp
qed

lemma Op_SUB_never_returns:
  assumes "0 < v" "blocks v operation" "nonneg_N (N v (operation # ds))" "0 \<le> a" "d < 10"
  shows "run fuel (Op (SUB (N v (operation # ds))) (N a [])) d = None"
proof -
  have "run fuel' (SUB_while (N a []) (N v (operation # ds))) (d + 1) = None" for fuel'
    using SUB_while_never_returns[OF assms(1-3), of "N a []" fuel' 0 "d + 1"] assms(4) by simp
  then have "run (Suc (Suc (Suc (Suc fuel)))) (Op (SUB (N v (operation # ds))) (N a [])) d = None"
    using assms(4,5) by (simp add: run_unfold)
  then show ?thesis by (rule run_None_mono) simp
qed

lemma Op_MUL_never_returns:
  assumes "1 < v" "blocks v operation" "nonneg_N (N v (operation # ds))" "0 \<le> a" "d < 10"
  shows "run fuel (Op (MUL (N v (operation # ds))) (N a [])) d = None"
proof -
  have "run fuel' (MUL_while (N a []) (N a []) (N v (operation # ds))) (d + 1) = None" for fuel'
    using MUL_while_never_returns[OF assms(1-3), of "N a []" "N a []" fuel' 0 "d + 1"] assms(4) by simp
  then have "run (Suc (Suc (Suc (Suc fuel)))) (Op (MUL (N v (operation # ds))) (N a [])) d = None"
    using assms(4,5) by (simp add: run_unfold)
  then show ?thesis by (rule run_None_mono) simp
qed

lemma Op_DIV_never_returns:
  assumes "0 < v" "blocks v operation" "nonneg_N (N v (operation # ds))" "v \<le> a" "d < 9"
  shows "run fuel (Op (DIV (N v (operation # ds))) (N a [])) d = None"
proof -
  have "run fuel' (Op (SUB (N v (operation # ds))) (N a [])) (d + 1) = None" for fuel'
    using assms by (intro Op_SUB_never_returns) auto
  then have "run (Suc (Suc (Suc (Suc (Suc fuel))))) (Op (DIV (N v (operation # ds))) (N a [])) d = None"
    using assms(1,4,5) by (simp add: run_unfold)
  then show ?thesis by (rule run_None_mono) simp
qed

subsection \<open>The values of the public API are settled\<close>

text \<open>
  \<open>op\<close> at the initial counter, on a settled receiver and a settled operand, returns a
  settled value whenever it returns.  Hence every value of the public API is settled,
  and \<open>evaluate\<close> returns it unchanged.
\<close>

lemma settled_decremented: "0 \<le> a \<Longrightarrow> settled (decremented a k)"
proof (cases "int k \<le> a")
  case True
  then show ?thesis by (simp add: decremented_def)
next
  case False
  assume "0 \<le> a"
  with False obtain j where "k - nat a = Suc j"
    by (cases "k - nat a") auto
  with False show ?thesis by (simp add: decremented_def)
qed

lemma settled_DIV_outcome: "0 \<le> q \<Longrightarrow> settled (DIV_outcome q r b (Suc k))"
  by (simp add: DIV_outcome_def)

lemma settled_cases:
  assumes "settled n"
  obtains (plain) v where "n = N v []" "0 \<le> v"
  | (blocked) v operation ds where "n = N v (operation # ds)" "0 \<le> v" "blocks v operation"
proof (cases n)
  case (N v ds)
  with assms that show ?thesis by (cases ds) auto
qed

lemma Op_result_settled_plain:
  assumes "0 \<le> v" "operand_settled operation"
    and "run fuel (Op operation (N v [])) 0 = Some (Inr (r, d'))"
  shows "settled r"
proof (cases operation)
  case INC
  have "run 4 (Op INC (N v [])) 0 = Some (Inr (N (v + 1) [], 0))"
    using assms(1) by (intro Op_INC_plain) auto
  from run_agree[OF assms(3)[unfolded INC] this] assms(1) show ?thesis by auto
next
  case DEC
  show ?thesis
  proof (cases "v = 0")
    case True
    have "run 52 (Op DEC (N 0 [])) 0 = Some (Inr (N 0 [DEC], 0))"
      by (intro Op_DEC_zero) auto
    from run_agree[OF assms(3)[unfolded DEC True] this] show ?thesis by auto
  next
    case False
    have "run 4 (Op DEC (N v [])) 0 = Some (Inr (N (v - 1) [], 0))"
      using assms(1) False by (intro Op_DEC_plain) auto
    from run_agree[OF assms(3)[unfolded DEC] this] assms(1) False show ?thesis by auto
  qed
next
  case (ADD b)
  with assms(2) have b: "settled b" "nonneg_N b" by auto
  from b(1) show ?thesis
  proof (cases rule: settled_cases)
    case (plain w)
    have "run (nat w + 9) (Op (ADD (N w [])) (N v [])) 0 = Some (Inr (N (v + w) [], 0))"
      using assms(1) plain(2) by (intro Op_ADD_plain) auto
    from run_agree[OF assms(3)[unfolded ADD plain(1)] this] assms(1) plain(2) show ?thesis by auto
  next
    case (blocked w operation' ds)
    show ?thesis
    proof (cases "w = 0")
      case True
      have "run 52 (Op (ADD b) (N v [])) 0 = Some (Inr (N v [ADD b], 0))"
        using assms(1) blocked True by (intro Op_ADD_operand_blocked) auto
      from run_agree[OF assms(3)[unfolded ADD] this] assms(1) blocked True show ?thesis by auto
    next
      case False
      have "run fuel (Op (ADD (N w (operation' # ds))) (N v [])) 0 = None"
        using assms(1) blocked False b(2) by (intro Op_ADD_never_returns) auto
      with assms(3) show ?thesis unfolding ADD blocked(1) by simp
    qed
  qed
next
  case (SUB b)
  with assms(2) have b: "settled b" "nonneg_N b" by auto
  from b(1) show ?thesis
  proof (cases rule: settled_cases)
    case (plain w)
    have "run (nat w + 57) (Op (SUB (N w [])) (N v [])) 0 = Some (Inr (decremented v (nat w), 0))"
      using assms(1) plain(2) by (intro Op_SUB_plain) auto
    from run_agree[OF assms(3)[unfolded SUB plain(1)] this] settled_decremented[OF assms(1)]
    show ?thesis by auto
  next
    case (blocked w operation' ds)
    show ?thesis
    proof (cases "w = 0")
      case True
      have "run 56 (Op (SUB b) (N v [])) 0 = Some (Inr (N v [ADD b], 0))"
        using assms(1) blocked True by (intro Op_SUB_operand_blocked) auto
      from run_agree[OF assms(3)[unfolded SUB] this] assms(1) blocked True show ?thesis by auto
    next
      case False
      have "run fuel (Op (SUB (N w (operation' # ds))) (N v [])) 0 = None"
        using assms(1) blocked False b(2) by (intro Op_SUB_never_returns) auto
      with assms(3) show ?thesis unfolding SUB blocked(1) by simp
    qed
  qed
next
  case (MUL b)
  with assms(2) have b: "settled b" "nonneg_N b" by auto
  from b(1) show ?thesis
  proof (cases rule: settled_cases)
    case (plain w)
    have "run (nat w + nat v + 14) (Op (MUL (N w [])) (N v [])) 0 =
       Some (Inr (N (v + v * int (nat w - 1)) [], 0))"
      using assms(1) plain(2) by (intro Op_MUL_plain) auto
    from run_agree[OF assms(3)[unfolded MUL plain(1)] this] assms(1) show ?thesis by auto
  next
    case (blocked w operation' ds)
    show ?thesis
    proof (cases "w \<le> 1")
      case True
      have "run 5 (Op (MUL b) (N v [])) 0 = Some (Inr (N v [], 0))"
        using assms(1) blocked True by (intro Op_MUL_no_iteration) auto
      from run_agree[OF assms(3)[unfolded MUL] this] assms(1) show ?thesis by auto
    next
      case False
      have "run fuel (Op (MUL (N w (operation' # ds))) (N v [])) 0 = None"
        using assms(1) blocked False b(2) by (intro Op_MUL_never_returns) auto
      with assms(3) show ?thesis unfolding MUL blocked(1) by simp
    qed
  qed
next
  case (DIV b)
  with assms(2) have b: "settled b" "nonneg_N b" by auto
  show ?thesis
  proof (cases "val b = 0 \<or> v < val b")
    case True
    have "run 58 (Op (DIV b) (N v [])) 0 = Some (Inr (DIV_outcome 0 v b (nat (9 - 0)), 0))"
      using assms(1) True by (intro Op_DIV_no_iteration) auto
    from run_agree[OF assms(3)[unfolded DIV] this] have "r = DIV_outcome 0 v b 9"
      by simp
    moreover have "settled (DIV_outcome 0 v b 9)"
      using settled_DIV_outcome[of 0 v b 8] by simp
    ultimately show ?thesis by simp
  next
    case False
    from b(1) show ?thesis
    proof (cases rule: settled_cases)
      case (plain w)
      have "run (nat v + nat w + 64) (Op (DIV (N w [])) (N v [])) 0 =
         Some (Inr (DIV_outcome (v div w) (v mod w) (N w []) (nat (9 - 0)), 0))"
        using assms(1) plain False by (intro Op_DIV_plain) auto
      from run_agree[OF assms(3)[unfolded DIV plain(1)] this]
      have "r = DIV_outcome (v div w) (v mod w) (N w []) 9"
        by simp
      moreover have "0 \<le> v div w" using assms(1) plain False
        by (simp add: pos_imp_zdiv_nonneg_iff)
      then have "settled (DIV_outcome (v div w) (v mod w) (N w []) 9)"
        using settled_DIV_outcome[of "v div w" "v mod w" "N w []" 8] by simp
      ultimately show ?thesis by simp
    next
      case (blocked w operation' ds)
      have "run fuel (Op (DIV (N w (operation' # ds))) (N v [])) 0 = None"
        using assms(1) blocked False b(2) by (intro Op_DIV_never_returns) auto
      with assms(3) show ?thesis unfolding DIV blocked(1) by simp
    qed
  qed
qed

lemma Op_result_settled:
  assumes "settled a" "operand_settled operation"
    and "run fuel (Op operation a) 0 = Some (Inr (r, d'))"
  shows "settled r"
  using assms(1)
proof (cases rule: settled_cases)
  case (plain v)
  then show ?thesis using assms(2,3) Op_result_settled_plain by blast
next
  case (blocked v operation' ds)
  have "run 52 (Op operation (N v (operation' # ds))) 0 =
     Some (Inr (N v (operation' # ds @ [operation]), 0))"
    using blocked by (intro Op_blocked) auto
  from run_agree[OF assms(3)[unfolded blocked(1)] this] blocked show ?thesis by auto
qed

lemma produced_settled: "produced r \<Longrightarrow> settled r \<and> nonneg_N r"
proof (induction rule: produced.induct)
  case (literal x)
  then show ?case by simp
next
  case (unary a operation fuel r d)
  then have "operand_settled operation" "nonneg_call (Op operation a)" by auto
  with unary show ?case
    using Op_result_settled[of a operation fuel r d] run_safe[of "Op operation a" fuel 0 "Inr (r, d)"]
    by (auto simp: op_N_def)
next
  case (binary a b operation fuel r d)
  then have "operand_settled operation" "nonneg_call (Op operation a)" by auto
  with binary show ?case
    using Op_result_settled[of a operation fuel r d] run_safe[of "Op operation a" fuel 0 "Inr (r, d)"]
    by (auto simp: op_N_def)
qed

lemma Evaluate_settled:
  assumes "settled n" "0 \<le> d" "51 \<le> fuel"
  shows "run fuel (Evaluate n) d = Some (Inr (n, d))"
  using assms(1)
proof (cases rule: settled_cases)
  case (plain v)
  then show ?thesis using assms(3) by (simp add: Evaluate_plain)
next
  case (blocked v operation ds)
  then show ?thesis using assms(2,3) by (simp add: Evaluate_blocked)
qed

lemma evaluate_times_settled:
  assumes "settled n" "0 \<le> d" "51 \<le> fuel"
  shows "evaluate_times fuel k n d = Some (Inr (n, d))"
  by (induction k) (simp_all add: evaluate_def Evaluate_settled[OF assms])

lemma nonneg_wrap_ADD [simp]: "nonneg_N (wrap_ADD k y) = nonneg_N y"
  by (induction k) simp_all

lemma wrap_ADD_9: "wrap_ADD 9 y = N 0 [ADD (wrap_ADD 8 y)]"
  by (simp add: eval_nat_numeral)

lemma div_3_2: "run 100 (Op (DIV (N 2 [])) (N 3 [])) 0 =
   Some (Inr (N 1 [ADD (wrap_ADD 9 (N 1 [DIV (N 2 [])]))], 0))"
  using Op_DIV_plain[of 0 3 2 100] by (simp add: DIV_outcome_def)

lemma produced_DEC_zero: "produced (N 0 [DEC])"
proof -
  have "op_N 52 DEC (N 0 []) 0 = Some (Inr (N 0 [DEC], 0))"
    unfolding op_N_def by (intro Op_DEC_zero) auto
  then show ?thesis using produced.literal[of 0] produced.unary by blast
qed

subsection \<open>Concrete evaluations\<close>

lemma MUL_while_no_iteration:
  "val counter \<le> 1 \<Longrightarrow> run (Suc fuel) (MUL_while n a counter) d = Some (Inr (a, d))"
  by (simp add: run_unfold)

lemma div_5_3: "run 100 (Op (DIV (N 3 [])) (N 5 [])) 0 =
   Some (Inr (N 1 [ADD (wrap_ADD 9 (N 2 [DIV (N 3 [])]))], 0))"
  by code_simp

lemma div_7_2: "run 100 (Op (DIV (N 2 [])) (N 7 [])) 0 =
   Some (Inr (N 3 [ADD (wrap_ADD 9 (N 1 [DIV (N 2 [])]))], 0))"
  by code_simp

lemma div_7_2_mul_2: "run 100 (Op (MUL (N 2 [])) (N 3 [ADD (wrap_ADD 9 (N 1 [DIV (N 2 [])]))])) 0 =
   Some (Inr (N 3 [ADD (wrap_ADD 9 (N 1 [DIV (N 2 [])])), MUL (N 2 [])], 0))"
  by code_simp

lemma render_5_3: "toString (N 1 [ADD (wrap_ADD 9 (N 2 [DIV (N 3 [])]))]) =
  ''1[ADD(0[ADD(0[ADD(0[ADD(0[ADD(0[ADD(0[ADD(0[ADD(0[ADD(0[ADD(2[DIV(3)])])])])])])])])])])]''"
  by code_simp

subsection \<open>What \<open>op\<close> and \<open>evaluate\<close> guarantee\<close>

text \<open>
  No call of \<open>op\<close> on values without a negative magnitude throws, at any fuel and any
  state of the counter.  On operands without pending operations a subtraction and a
  division return a value: subtraction past zero and division by zero or with a
  remainder show only as a non-empty pending queue.
\<close>

lemma op_never_throws_plain_operands_return:
  "(nonneg_N this \<and> nonneg_OP operation \<longrightarrow> op_N fuel operation this d \<noteq> Some (Inl e)) \<and>
   (0 \<le> a \<and> 0 \<le> b \<longrightarrow>
     (\<exists>r. op_N (nat a + nat b + 64 + fuel) (SUB (N b [])) (N a []) 0 = Some (Inr (r, 0)) \<and>
          (deferred r \<noteq> [] \<longleftrightarrow> a < b)) \<and>
     (\<exists>r. op_N (nat a + nat b + 64 + fuel) (DIV (N b [])) (N a []) 0 = Some (Inr (r, 0)) \<and>
          (deferred r \<noteq> [] \<longleftrightarrow> (if b = 0 then a \<noteq> 0 else a mod b \<noteq> 0))))"
proof -
  have 1: "op_N fuel operation this d \<noteq> Some (Inl e)" if "nonneg_N this" "nonneg_OP operation"
  proof -
    from that have "nonneg_call (Op operation this)" by simp
    from run_safe[OF this, of fuel d "Inl e"] show ?thesis by (auto simp: op_N_def)
  qed
  have 2: "\<exists>r. op_N (nat a + nat b + 64 + fuel) (SUB (N b [])) (N a []) 0 = Some (Inr (r, 0)) \<and>
          (deferred r \<noteq> [] \<longleftrightarrow> a < b)" if "0 \<le> a" "0 \<le> b"
  proof -
    have "run (nat a + nat b + 64 + fuel) (Op (SUB (N b [])) (N a [])) 0 =
       Some (Inr (decremented a (nat b), 0))"
      using that by (intro Op_SUB_plain) auto
    moreover have "deferred (decremented a (nat b)) \<noteq> [] \<longleftrightarrow> a < b"
      using that by (auto simp: decremented_def)
    ultimately show ?thesis unfolding op_N_def by blast
  qed
  have 3: "\<exists>r. op_N (nat a + nat b + 64 + fuel) (DIV (N b [])) (N a []) 0 = Some (Inr (r, 0)) \<and>
          (deferred r \<noteq> [] \<longleftrightarrow> (if b = 0 then a \<noteq> 0 else a mod b \<noteq> 0))" if "0 \<le> a" "0 \<le> b"
  proof (cases "b = 0")
    case True
    have "run (nat a + nat b + 64 + fuel) (Op (DIV (N b [])) (N a [])) 0 =
       Some (Inr (DIV_outcome 0 a (N b []) (nat (9 - 0)), 0))"
      using that True by (intro Op_DIV_no_iteration) auto
    moreover have "deferred (DIV_outcome 0 a (N b []) (nat (9 - 0))) \<noteq> [] \<longleftrightarrow> a \<noteq> 0"
      by (simp add: DIV_outcome_def)
    ultimately show ?thesis unfolding op_N_def using True by auto
  next
    case False
    have "run (nat a + nat b + 64 + fuel) (Op (DIV (N b [])) (N a [])) 0 =
       Some (Inr (DIV_outcome (a div b) (a mod b) (N b []) (nat (9 - 0)), 0))"
      using that False by (intro Op_DIV_plain) auto
    moreover have "deferred (DIV_outcome (a div b) (a mod b) (N b []) (nat (9 - 0))) \<noteq> [] \<longleftrightarrow> a mod b \<noteq> 0"
      by (simp add: DIV_outcome_def)
    ultimately show ?thesis unfolding op_N_def using False by auto
  qed
  from 1 2 3 show ?thesis by blast
qed

text \<open>
  The depth bound of \<open>evaluate\<close>.  Entered with the counter at 10 or more, \<open>evaluate\<close>
  returns its receiver unchanged at once, so that \<open>op\<close> returns the receiver with the
  operation appended and not applied.  A call that returns leaves the counter as it
  found it.  A settled value is returned unchanged within a call depth of 51, and every
  value of the public API is settled.
\<close>

lemma evaluate_depth_bound:
  "(10 \<le> d \<longrightarrow> evaluate (Suc fuel) this d = Some (Inr (this, d))) \<and>
   (10 \<le> d \<and> 0 \<le> val this \<longrightarrow>
      op_N (Suc (Suc fuel)) operation this d =
        Some (Inr (N (val this) (deferred this @ [operation]), d))) \<and>
   (nonneg_N this \<and> evaluate fuel this d = Some (Inr (r, d')) \<longrightarrow> d' = d) \<and>
   (settled n \<and> 0 \<le> d \<longrightarrow> evaluate (51 + fuel) n d = Some (Inr (n, d))) \<and>
   (produced n \<longrightarrow> settled n)"
proof -
  have "d' = d" if "nonneg_N this" "evaluate fuel this d = Some (Inr (r, d'))"
    using run_safe[of "Evaluate this" fuel d "Inr (r, d')"] that by (simp add: evaluate_def)
  then show ?thesis
    using produced_settled[of n]
    by (auto simp: evaluate_def op_N_def run_Op Evaluate_over_bound Evaluate_settled)
qed

text \<open>
  A neighbour of the test \<open>(10 / 3) + (10 / 3)\<close> of \<open>main.ts\<close> (lines 397 to 402), with a
  receiver that has no pending operation: \<open>new N(10).op(ADD, tenDivThree)\<close> does not end.
\<close>

lemma add_tenDivThree_never_returns:
  "op_N 100 (DIV (N 3 [])) (N 10 []) 0 =
     Some (Inr (N 3 [ADD (wrap_ADD 9 (N 1 [DIV (N 3 [])]))], 0)) \<and>
   never_returns (Op (ADD (N 3 [ADD (wrap_ADD 9 (N 1 [DIV (N 3 [])]))])) (N 10 [])) 0"
proof -
  have "run 100 (Op (DIV (N 3 [])) (N 10 [])) 0 =
     Some (Inr (N 3 [ADD (wrap_ADD 9 (N 1 [DIV (N 3 [])]))], 0))"
    using Op_DIV_plain[of 0 10 3 100] by (simp add: DIV_outcome_def)
  moreover have
    "run fuel (Op (ADD (N 3 [ADD (wrap_ADD 9 (N 1 [DIV (N 3 [])]))])) (N 10 [])) 0 = None" for fuel
    by (intro Op_ADD_never_returns) (simp_all add: wrap_ADD_9)
  ultimately show ?thesis unfolding op_N_def never_returns_def by blast
qed

section \<open>The claims\<close>

text \<open>
  Claim C1, the division invariant, for \<open>new N(a).op(DIV, new N(b))\<close> with \<open>a \<ge> 0\<close> and
  \<open>b > 0\<close>.  The call returns; with an empty pending queue the magnitude times \<open>b\<close> is \<open>a\<close>;
  with a non-empty one the magnitude times \<open>b\<close> is at most \<open>a\<close> and the queue is a single
  \<open>ADD\<close>.  The value that this \<open>ADD\<close> captures is not the remainder, though: it has
  magnitude zero, and the remainder \<open>a - q * b\<close> with its pending \<open>DIV\<close> lies under nine
  values of magnitude zero with one pending \<open>ADD\<close> each, one for every level at which
  \<open>DIV.execute\<close> called itself before \<open>evaluate\<close> reached its depth bound.
\<close>

theorem divide_captured_operand:
  "0 \<le> a \<Longrightarrow> 0 < b \<Longrightarrow>
   \<exists>r. op_N (nat a + nat b + 64 + fuel) (DIV (N b [])) (N a []) 0 = Some (Inr (r, 0)) \<and>
     (deferred r = [] \<longrightarrow> val r * b = a) \<and>
     (deferred r \<noteq> [] \<longrightarrow> val r * b \<le> a \<and>
        (\<exists>x. deferred r = [ADD x] \<and> x = wrap_ADD 9 (N (a - val r * b) [DIV (N b [])]) \<and>
             val x = 0 \<and> val x \<noteq> a - val r * b))"
proof -
  assume a: "0 \<le> a" and b: "0 < b"
  let ?r = "DIV_outcome (a div b) (a mod b) (N b []) 9"
  have "run (nat a + nat b + 64 + fuel) (Op (DIV (N b [])) (N a [])) 0 = Some (Inr (?r, 0))"
    using Op_DIV_plain[of 0 a b "nat a + nat b + 64 + fuel"] a b by simp
  then have 1: "op_N (nat a + nat b + 64 + fuel) (DIV (N b [])) (N a []) 0 = Some (Inr (?r, 0))"
    by (simp add: op_N_def)
  have m: "a - a div b * b = a mod b"
    by (simp add: minus_div_mult_eq_mod)
  have 2: "deferred ?r = [] \<longrightarrow> val ?r * b = a"
    using m by (auto simp: DIV_outcome_def)
  have le: "a div b * b \<le> a" using b m
    by (metis diff_ge_0_iff_ge pos_mod_sign)
  have 3: "deferred ?r \<noteq> [] \<longrightarrow> val ?r * b \<le> a \<and>
        (\<exists>x. deferred ?r = [ADD x] \<and> x = wrap_ADD 9 (N (a - val ?r * b) [DIV (N b [])]) \<and>
             val x = 0 \<and> val x \<noteq> a - val ?r * b)"
    using le m by (auto simp: DIV_outcome_def wrap_ADD_9)
  from 1 2 3 show ?thesis by blast
qed

theorem divide_captured_operand_witness:
  "(0::int) \<le> 5 \<and> (0::int) < 3 \<and>
   (\<exists>r. op_N 72 (DIV (N 3 [])) (N 5 []) 0 = Some (Inr (r, 0)) \<and> deferred r \<noteq> [] \<and>
     val r = 1 \<and> (\<exists>x. deferred r = [ADD x] \<and> val x = 0))"
proof -
  from divide_captured_operand[of 5 3 0] obtain r where r: "op_N 72 (DIV (N 3 [])) (N 5 []) 0 = Some (Inr (r, 0))"
     "deferred r = [] \<longrightarrow> val r * 3 = 5"
     "deferred r \<noteq> [] \<longrightarrow> val r * 3 \<le> 5 \<and>
        (\<exists>x. deferred r = [ADD x] \<and> x = wrap_ADD 9 (N (5 - val r * 3) [DIV (N 3 [])]) \<and>
             val x = 0 \<and> val x \<noteq> 5 - val r * 3)"
    by auto
  have "run 100 (Op (DIV (N 3 [])) (N 5 [])) 0 =
     Some (Inr (N 1 [ADD (wrap_ADD 9 (N 2 [DIV (N 3 [])]))], 0))"
    by (rule div_5_3)
  with r(1) have "r = N 1 [ADD (wrap_ADD 9 (N 2 [DIV (N 3 [])]))]"
    unfolding op_N_def using run_agree by blast
  with r show ?thesis by (auto simp: wrap_ADD_9)
qed

text \<open>
  Claim C2 says that a zero on either side of a multiplication gives \<open>ZERO\<close>.  The loop of
  \<open>MUL.execute\<close> runs while the counter exceeds one and starts from the receiver, so
  \<open>new N(5).op(MUL, ZERO())\<close> returns 5.
\<close>

theorem multiply_by_zero_returns_receiver: "op_N (5 + fuel) (MUL ZERO) (N 5 []) 0 = Some (Inr (N 5 [], 0))"
proof -
  have "run 5 (Op (MUL ZERO) (N 5 [])) 0 = Some (Inr (N 5 [], 0))"
    by (simp add: numeral_eq_Suc run_unfold ZERO_def)
  then have "run (5 + fuel) (Op (MUL ZERO) (N 5 [])) 0 = Some (Inr (N 5 [], 0))"
    by (rule run_mono) simp
  then show ?thesis by (simp add: op_N_def)
qed

text \<open>
  Claim C3 says that \<open>op\<close> always returns a value.  It never throws (lemma
  \<open>op_never_throws_plain_operands_return\<close>), but it does not always return:
  \<open>new N(1).op(SUB, x)\<close>, with \<open>x\<close> the value of \<open>new N(3).op(DIV, new N(2))\<close>, a
  subtraction past zero, does not end.  The operand has magnitude 1 and a pending \<open>ADD\<close>
  that cannot complete; the loop of \<open>SUB.execute\<close> runs while that magnitude is
  positive, and every \<open>DEC\<close> on the operand is only appended to its queue.  The branch
  after the loop, which replays an operand's pending operations, is never reached.
\<close>

theorem subtract_pending_operand_never_returns:
  "op_N 100 (DIV (N 2 [])) (N 3 []) 0 =
     Some (Inr (N 1 [ADD (wrap_ADD 9 (N 1 [DIV (N 2 [])]))], 0)) \<and>
   never_returns (Op (SUB (N 1 [ADD (wrap_ADD 9 (N 1 [DIV (N 2 [])]))])) (N 1 [])) 0"
proof -
  have "run fuel (Op (SUB (N 1 [ADD (wrap_ADD 9 (N 1 [DIV (N 2 [])]))])) (N 1 [])) 0 = None" for fuel
    by (intro Op_SUB_never_returns) (simp_all add: wrap_ADD_9)
  with div_3_2 show ?thesis unfolding op_N_def never_returns_def by blast
qed

text \<open>
  Claim C4.  Every value of the public API has a magnitude of at least zero, and no
  application of \<open>op\<close> to such values ends in the constructor's error, at any fuel.
\<close>

theorem produced_magnitude_nonneg: "produced a \<Longrightarrow>
  0 \<le> val a \<and> (operand_produced operation \<longrightarrow> op_N fuel operation a 0 \<noteq> Some (Inl e))"
proof -
  assume a: "produced a"
  then have na: "nonneg_N a" using produced_settled by blast
  then have "0 \<le> val a" by (simp add: nonneg_N_sel)
  moreover have "op_N fuel operation a 0 \<noteq> Some (Inl e)" if "operand_produced operation"
  proof -
    from that have "nonneg_OP operation"
      using produced_settled by (cases operation) auto
    with na have "nonneg_call (Op operation a)" by simp
    from run_safe[OF this, of fuel 0 "Inl e"] show ?thesis by (auto simp: op_N_def)
  qed
  ultimately show ?thesis by blast
qed

theorem produced_magnitude_nonneg_witness:
  "produced (N 0 [DEC]) \<and> operand_produced (SUB (N 3 [])) \<and> (0::int) \<le> val (N 0 [DEC]) \<and>
   op_N 60 (SUB (N 3 [])) (N 0 [DEC]) 0 \<noteq> Some (Inl NegativeValue)"
  using produced_magnitude_nonneg[OF produced_DEC_zero, of "SUB (N 3 [])" 60 NegativeValue] produced_DEC_zero
    produced.literal[of 3] by simp

text \<open>
  Claim C5 says that draining ends in bounded work for every value.  The guard of
  \<open>evaluate\<close> bounds the nesting of calls (lemma \<open>evaluate_depth_bound\<close>), not the loops
  of the operations: draining \<open>1[ADD(x)]\<close>, with \<open>x\<close> the value of
  \<open>new N(3).op(DIV, new N(2))\<close>, as \<open>new N(1).op(ADD, x)\<close> does, never returns.  The loop
  of \<open>ADD.execute\<close> runs while the magnitude of \<open>x\<close> is positive, and each \<open>DEC\<close> on
  \<open>x\<close> is only appended to its queue.
\<close>

theorem evaluate_pending_add_never_returns:
  "op_N 100 (DIV (N 2 [])) (N 3 []) 0 =
     Some (Inr (N 1 [ADD (wrap_ADD 9 (N 1 [DIV (N 2 [])]))], 0)) \<and>
   never_returns (Evaluate (N 1 [ADD (N 1 [ADD (wrap_ADD 9 (N 1 [DIV (N 2 [])]))])])) 0"
proof -
  have "run fuel (Evaluate (N 1 [ADD (N 1 [ADD (wrap_ADD 9 (N 1 [DIV (N 2 [])]))])])) 0 = None" for fuel
    by (intro Evaluate_ADD_never_returns) (simp_all add: wrap_ADD_9)
  with div_3_2 show ?thesis unfolding op_N_def never_returns_def by blast
qed

text \<open>
  Claim C6.  Through \<open>op\<close>, a \<open>DEC\<close> on \<open>new N(x)\<close> with \<open>x > 0\<close> returns magnitude
  \<open>x - 1\<close> with the pending queue still empty; on \<open>new N(0)\<close> the magnitude stays \<open>0\<close>
  and the pending queue gains exactly one entry, a \<open>DEC\<close>.  The first needs a fuel of 4, the
  second the fuel of the nested calls that end at the depth bound.
\<close>

theorem decrement_via_op:
  "(0 < x \<longrightarrow> op_N (4 + fuel) DEC (N x []) 0 = Some (Inr (N (x - 1) [], 0))) \<and>
   op_N (52 + fuel) DEC (N 0 []) 0 = Some (Inr (N 0 [DEC], 0))"
  by (simp add: op_N_def Op_DEC_plain Op_DEC_zero)

theorem decrement_via_op_witness:
  "(0::int) < 3 \<and> op_N 4 DEC (N 3 []) 0 = Some (Inr (N 2 [], 0))"
  using decrement_via_op[of 3 0] by simp

text \<open>
  Claim C7.  \<open>new N(7).op(DIV, new N(2)).op(MUL, new N(2))\<close> does not have magnitude 7 and an
  empty pending queue: the pending \<open>ADD\<close> of the quotient cannot be completed, so the
  \<open>MUL\<close> is only appended to the queue, and the value has magnitude 3 and two pending
  operations.
\<close>

theorem divide_then_multiply_7_2:
  "\<exists>q r. op_N (100 + fuel) (DIV (N 2 [])) (N 7 []) 0 = Some (Inr (q, 0)) \<and>
         op_N (100 + fuel) (MUL (N 2 [])) q 0 = Some (Inr (r, 0)) \<and>
         val r = 3 \<and> length (deferred r) = 2 \<and>
         toString r = ''3[ADD(0[ADD(0[ADD(0[ADD(0[ADD(0[ADD(0[ADD(0[ADD(0[ADD(0[ADD(1[DIV(2)])])])])])])])])])]), MUL(2)]''"
proof -
  define q where "q = N 3 [ADD (wrap_ADD 9 (N 1 [DIV (N 2 [])]))]"
  define r where "r = N 3 [ADD (wrap_ADD 9 (N 1 [DIV (N 2 [])])), MUL (N 2 [])]"
  have "run (100 + fuel) (Op (DIV (N 2 [])) (N 7 [])) 0 = Some (Inr (q, 0))"
    unfolding q_def using div_7_2 by (rule run_mono) simp
  then have 1: "op_N (100 + fuel) (DIV (N 2 [])) (N 7 []) 0 = Some (Inr (q, 0))"
    by (simp add: op_N_def)
  have "run (100 + fuel) (Op (MUL (N 2 [])) q) 0 = Some (Inr (r, 0))"
    unfolding q_def r_def using div_7_2_mul_2 by (rule run_mono) simp
  then have 2: "op_N (100 + fuel) (MUL (N 2 [])) q 0 = Some (Inr (r, 0))"
    by (simp add: op_N_def)
  have 3: "toString r = ''3[ADD(0[ADD(0[ADD(0[ADD(0[ADD(0[ADD(0[ADD(0[ADD(0[ADD(0[ADD(1[DIV(2)])])])])])])])])])]), MUL(2)]''"
    unfolding r_def by code_simp
  have 4: "val r = 3" "length (deferred r) = 2"
    by (simp_all add: r_def)
  from 1 2 3 4 show ?thesis by blast
qed

text \<open>
  Claim C8.  \<open>new N(5).op(DIV, new N(3))\<close> has magnitude 1 and one pending operation, but
  its rendering is not the \<open>1[ADD(2[DIV(3)])]\<close> that the test of \<open>main.ts\<close> expects: the
  division of the remainder calls itself until \<open>evaluate\<close> reaches its depth bound, and every
  level on the way back wraps the result in a value of magnitude zero with a pending \<open>ADD\<close>.
\<close>

theorem divide_5_by_3_rendering:
  "\<exists>r. op_N (100 + fuel) (DIV (N 3 [])) (N 5 []) 0 = Some (Inr (r, 0)) \<and>
       val r = 1 \<and> length (deferred r) = 1 \<and>
       toString r = ''1[ADD(0[ADD(0[ADD(0[ADD(0[ADD(0[ADD(0[ADD(0[ADD(0[ADD(0[ADD(2[DIV(3)])])])])])])])])])])]'' \<and>
       toString r \<noteq> ''1[ADD(2[DIV(3)])]''"
proof -
  define r where "r = N 1 [ADD (wrap_ADD 9 (N 2 [DIV (N 3 [])]))]"
  have "run (100 + fuel) (Op (DIV (N 3 [])) (N 5 [])) 0 = Some (Inr (r, 0))"
    unfolding r_def using div_5_3 by (rule run_mono) simp
  then have 1: "op_N (100 + fuel) (DIV (N 3 [])) (N 5 []) 0 = Some (Inr (r, 0))"
    by (simp add: op_N_def)
  have 2: "toString r = ''1[ADD(0[ADD(0[ADD(0[ADD(0[ADD(0[ADD(0[ADD(0[ADD(0[ADD(0[ADD(2[DIV(3)])])])])])])])])])])]''"
    unfolding r_def by (rule render_5_3)
  have 3: "val r = 1" "length (deferred r) = 1"
    by (simp_all add: r_def)
  have 4: "toString r \<noteq> ''1[ADD(2[DIV(3)])]''"
    unfolding 2 by simp
  from 1 2 3 4 show ?thesis by blast
qed

text \<open>
  Claim C9.  Every value of the public API is a fixed point of \<open>evaluate\<close>: evaluated any
  number of times, it comes back as it was, and so does its rendering.
\<close>

theorem evaluate_fixed_point: "produced n \<Longrightarrow>
  evaluate_times (51 + fuel) k n 0 = Some (Inr (n, 0)) \<and>
  (\<exists>n'. evaluate_times (51 + fuel) k n 0 = Some (Inr (n', 0)) \<and> toString n' = toString n)"
  using produced_settled[of n] evaluate_times_settled[of n 0 "51 + fuel" k] by simp

theorem evaluate_fixed_point_witness:
  "produced (N 0 [DEC]) \<and> evaluate_times 51 3 (N 0 [DEC]) 0 = Some (Inr (N 0 [DEC], 0))"
  using evaluate_fixed_point[OF produced_DEC_zero, of 0 3] produced_DEC_zero by simp

text \<open>
  Claim C10.  For a value with an empty pending queue, \<open>op(MUL, ONE())\<close> returns the same
  magnitude with an empty pending queue.  No \<open>ADD\<close> is applied: \<open>execute\<close> returns with a
  fuel of two, which is used up by \<open>execute\<close> and the loop and leaves none for a call of
  \<open>op\<close>; so does the loop with a fuel of one, whenever the counter does not exceed 1.
\<close>

theorem multiply_by_one:
  "0 \<le> v \<Longrightarrow>
     op_N (5 + fuel) (MUL ONE) (N v []) 0 = Some (Inr (N v [], 0)) \<and>
     execute (Suc (Suc 0)) (MUL ONE) (N v []) d = Some (Inr (N v [], d)) \<and>
     (val counter \<le> 1 \<longrightarrow> run (Suc 0) (MUL_while n a counter) d = Some (Inr (a, d)))"
proof -
  assume v: "0 \<le> v"
  have "run 5 (Op (MUL ONE) (N v [])) 0 = Some (Inr (N v [], 0))"
    using v by (simp add: numeral_eq_Suc run_unfold ONE_def)
  then have "run (5 + fuel) (Op (MUL ONE) (N v [])) 0 = Some (Inr (N v [], 0))"
    by (rule run_mono) simp
  then show ?thesis
    by (simp add: op_N_def execute_def run_unfold ONE_def MUL_while_no_iteration)
qed

theorem multiply_by_one_witness:
  "(0::int) \<le> 7 \<and> val ONE \<le> 1 \<and>
   op_N 5 (MUL ONE) (N 7 []) 0 = Some (Inr (N 7 [], 0)) \<and>
   execute (Suc (Suc 0)) (MUL ONE) (N 7 []) 0 = Some (Inr (N 7 [], 0)) \<and>
   run (Suc 0) (MUL_while (N 7 []) (N 7 []) ONE) 0 = Some (Inr (N 7 [], 0))"
  using multiply_by_one[of 7 0 0 ONE "N 7 []" "N 7 []"] by (simp add: ONE_def)

end
